theory Spec2Isabelle
  imports Main "HOL-Library.Multiset" "HOL-Library.Sublist" "HOL-Library.Word"
begin

section \<open>Go channels\<close>

text \<open>
  Every component of the toolkit is built on Go channels.  A call of the source either
  returns, blocks its goroutine, or panics; a panic leaves behind the state written so
  far (deferred unlocks have run), so \<open>Panics\<close> carries that state.
\<close>

datatype ('r, 's) outcome = Returns 'r 's | Blocks | Panics 's

text \<open>
  \<open>make(chan T, n)\<close>: a FIFO buffer of capacity \<open>n\<close> and the closed flag.
  \<open>close\<close> of a closed channel panics, a send on a closed channel panics, a send
  on a full buffer blocks, a receive on an empty open channel blocks, a receive on an
  empty closed channel yields the zero value (\<open>None\<close>) at once.
\<close>

record 'a chan =
  buf :: "'a list"
  cap :: nat
  is_closed :: bool

definition make_chan :: "nat \<Rightarrow> 'a chan" where
  "make_chan n = \<lparr>buf = [], cap = n, is_closed = False\<rparr>"

definition chan_close :: "'a chan \<Rightarrow> (unit, 'a chan) outcome" where
  "chan_close c = (if is_closed c then Panics c else Returns () (c\<lparr>is_closed := True\<rparr>))"

definition chan_send :: "'a chan \<Rightarrow> 'a \<Rightarrow> (unit, 'a chan) outcome" where
  "chan_send c v =
     (if is_closed c then Panics c
      else if length (buf c) < cap c then Returns () (c\<lparr>buf := buf c @ [v]\<rparr>)
      else Blocks)"

definition chan_recv :: "'a chan \<Rightarrow> ('a option, 'a chan) outcome" where
  "chan_recv c =
     (case buf c of
        x # xs \<Rightarrow> Returns (Some x) (c\<lparr>buf := xs\<rparr>)
      | [] \<Rightarrow> if is_closed c then Returns None c else Blocks)"

text \<open>A \<open>select\<close> case \<open><-c\<close> is ready when the receive would not block.\<close>

definition recv_ready :: "'a chan \<Rightarrow> bool" where
  "recv_ready c = (buf c \<noteq> [] \<or> is_closed c)"

section \<open>Future (01_concurrency/09_future.go)\<close>

text \<open>
  \<open>result interface{}\<close> and \<open>err error\<close> are \<open>nil\<close> (\<open>None\<close>) until set.
  \<open>SetResult\<close> and \<open>SetError\<close> hold \<open>mu\<close> for their whole body; a getter
  waits for \<open>done\<close> and then reads both slots under the read lock, taken here as one
  step.  \<open>GetWithTimeout\<close> builds its error with \<open>fmt.Errorf("timeout after %v", timeout)\<close>.
\<close>

type_synonym duration = int

datatype go_error = TimeoutAfter duration | Err string

record 'v Future =
  result :: "'v option"
  err :: "go_error option"
  done_ch :: "unit chan"

definition NewFuture :: "'v Future" where
  "NewFuture = \<lparr>result = None, err = None, done_ch = make_chan 0\<rparr>"

definition SetResult :: "'v Future \<Rightarrow> 'v option \<Rightarrow> (unit, 'v Future) outcome" where
  "SetResult f r =
     (let f1 = f\<lparr>result := r\<rparr> in
      case chan_close (done_ch f1) of
        Returns u c \<Rightarrow> Returns () (f1\<lparr>done_ch := c\<rparr>)
      | Panics c \<Rightarrow> Panics f1
      | Blocks \<Rightarrow> Blocks)"

definition SetError :: "'v Future \<Rightarrow> go_error option \<Rightarrow> (unit, 'v Future) outcome" where
  "SetError f e =
     (let f1 = f\<lparr>err := e\<rparr> in
      case chan_close (done_ch f1) of
        Returns u c \<Rightarrow> Returns () (f1\<lparr>done_ch := c\<rparr>)
      | Panics c \<Rightarrow> Panics f1
      | Blocks \<Rightarrow> Blocks)"

definition Get :: "'v Future \<Rightarrow> ('v option \<times> go_error option, 'v Future) outcome" where
  "Get f =
     (case chan_recv (done_ch f) of
        Returns x c \<Rightarrow> Returns (result f, err f) (f\<lparr>done_ch := c\<rparr>)
      | Blocks \<Rightarrow> Blocks
      | Panics c \<Rightarrow> Panics f)"

text \<open>
  \<open>GetWithTimeout\<close> selects between \<open><-f.done\<close> and \<open><-time.After(timeout)\<close>.
  The timer channel has capacity 1 and holds a value once the duration has elapsed; it is
  a parameter here.  When both cases are ready Go picks one at random: \<open>pick_timer\<close>.
\<close>

definition GetWithTimeout ::
  "'v Future \<Rightarrow> duration \<Rightarrow> unit chan \<Rightarrow> bool \<Rightarrow>
   ('v option \<times> go_error option, 'v Future) outcome" where
  "GetWithTimeout f timeout timer pick_timer =
     (if recv_ready (done_ch f) \<and> (\<not> recv_ready timer \<or> \<not> pick_timer) then
        (case chan_recv (done_ch f) of
           Returns x c \<Rightarrow> Returns (result f, err f) (f\<lparr>done_ch := c\<rparr>)
         | Blocks \<Rightarrow> Blocks
         | Panics c \<Rightarrow> Panics f)
      else if recv_ready timer then Returns (None, Some (TimeoutAfter timeout)) f
      else Blocks)"

definition IsDone :: "'v Future \<Rightarrow> bool" where
  "IsDone f = recv_ready (done_ch f)"

text \<open>
  Calls that write the Future.  Concurrent callers are serialised by \<open>mu\<close>, so a race of
  K setters is some order of K calls; \<open>state_after\<close> is the Future a call leaves behind
  and \<open>race\<close> records, per call in lock order, how the call ended.
\<close>

datatype 'v set_call = CallSetResult "'v option" | CallSetError "go_error option"

fun call :: "'v set_call \<Rightarrow> 'v Future \<Rightarrow> (unit, 'v Future) outcome" where
  "call (CallSetResult r) f = SetResult f r"
| "call (CallSetError e) f = SetError f e"

fun state_after :: "('r, 's) outcome \<Rightarrow> 's \<Rightarrow> 's" where
  "state_after (Returns r s') s = s'"
| "state_after (Panics s') s = s'"
| "state_after Blocks s = s"

fun returned :: "('r, 's) outcome \<Rightarrow> bool" where
  "returned (Returns r s) = True"
| "returned _ = False"

fun panicked :: "('r, 's) outcome \<Rightarrow> bool" where
  "panicked (Panics s) = True"
| "panicked _ = False"

fun race ::
  "'v set_call list \<Rightarrow> 'v Future \<Rightarrow> (unit, 'v Future) outcome list \<times> 'v Future" where
  "race [] f = ([], f)"
| "race (c # cs) f =
     (let r = call c f; (rs, f') = race cs (state_after r f) in (r # rs, f'))"

section \<open>Actor (01_concurrency/07_actor.go)\<close>

text \<open>
  \<open>Message\<close> is the interface with the one method \<open>Type() string\<close>; the source's
  implementations are the constructors below (\<open>interface{}\<close> payloads are of type
  \<open>'v\<close>, a \<open>Response\<close> channel is a reference).
\<close>

datatype 'v Message =
    StringMessage string
  | NumberMessage int
  | StopMessage
  | PingMessage int
  | PongMessage int
  | WorkMessage int string
  | ResultMessage int string
  | ErrorMessage string string
  | SetMessage string 'v
  | GetMessage string nat
  | RouteMessage string 'v
  | PipelineMessage string int
  | BankMessage string string int nat

fun Type :: "'v Message \<Rightarrow> string" where
  "Type (StringMessage c) = ''string''"
| "Type (NumberMessage v) = ''number''"
| "Type StopMessage = ''stop''"
| "Type (PingMessage c) = ''ping''"
| "Type (PongMessage c) = ''pong''"
| "Type (WorkMessage i t) = ''work''"
| "Type (ResultMessage i r) = ''result''"
| "Type (ErrorMessage a e) = ''error''"
| "Type (SetMessage k v) = ''set''"
| "Type (GetMessage k r) = ''get''"
| "Type (RouteMessage t d) = ''route''"
| "Type (PipelineMessage d st) = ''pipeline''"
| "Type (BankMessage ope acc am r) = ''bank''"

text \<open>
  The struct.  \<open>wg\<close> is the counter of the \<open>sync.WaitGroup\<close>; a handler
  \<open>func(Message)\<close> is an opaque value of type \<open>'h\<close>.
\<close>

record ('v, 'h) Actor =
  ID :: string
  mailbox :: "'v Message chan"
  handlers :: "string \<rightharpoonup> 'h"
  wg :: int
  stop :: "unit chan"

definition NewActor :: "string \<Rightarrow> ('v, 'h) Actor" where
  "NewActor ident =
     \<lparr>ID = ident, mailbox = make_chan 100, handlers = Map.empty, wg = 0, stop = make_chan 0\<rparr>"

definition RegisterHandler :: "('v, 'h) Actor \<Rightarrow> string \<Rightarrow> 'h \<Rightarrow> ('v, 'h) Actor" where
  "RegisterHandler a msgType handler = a\<lparr>handlers := (handlers a)(msgType \<mapsto> handler)\<rparr>"

definition Send :: "('v, 'h) Actor \<Rightarrow> 'v Message \<Rightarrow> (unit, ('v, 'h) Actor) outcome" where
  "Send a msg =
     (case chan_send (mailbox a) msg of
        Returns u c \<Rightarrow> Returns () (a\<lparr>mailbox := c\<rparr>)
      | Blocks \<Rightarrow> Blocks
      | Panics c \<Rightarrow> Panics a)"

text \<open>
  The goroutines of one actor.  Each \<open>Start\<close> spawns a dispatch loop; a loop is at its
  \<open>select\<close>, or has received a message and is about to look its handler up, or has
  returned.  \<open>log\<close> records, in order, every dispatched message with the handler that
  was called on it (\<open>None\<close>: the "unknown message type" line was printed instead).
  \<open>stopping\<close> counts the calls of \<open>Stop\<close> that have closed \<open>stop\<close> and are
  in \<open>wg.Wait()\<close>.  A handler is assumed to return and not to touch the actor.
\<close>

datatype 'm loop_pc = AtSelect | Received "'m option" | Exited

record ('v, 'h) actor_sys =
  actor :: "('v, 'h) Actor"
  loops :: "'v Message loop_pc list"
  log :: "('v Message \<times> 'h option) list"
  stopping :: nat

definition spawn_actor :: "string \<Rightarrow> ('v, 'h) actor_sys" where
  "spawn_actor ident = \<lparr>actor = NewActor ident, loops = [], log = [], stopping = 0\<rparr>"

text \<open>\<open>wg.Done()\<close> is \<open>wg.Add(-1)\<close>, which panics on a negative counter.\<close>

definition wg_done :: "('v, 'h) Actor \<Rightarrow> (unit, ('v, 'h) Actor) outcome" where
  "wg_done a = (if wg a - 1 < 0 then Panics a else Returns () (a\<lparr>wg := wg a - 1\<rparr>))"

definition Start :: "('v, 'h) actor_sys \<Rightarrow> ('v, 'h) actor_sys" where
  "Start s = s\<lparr>actor := (actor s)\<lparr>wg := wg (actor s) + 1\<rparr>, loops := loops s @ [AtSelect]\<rparr>"

text \<open>The \<open>select\<close> of loop \<open>i\<close> takes \<open>case msg := <-a.mailbox\<close>.\<close>

definition loop_recv :: "nat \<Rightarrow> ('v, 'h) actor_sys \<Rightarrow> (unit, ('v, 'h) actor_sys) outcome" where
  "loop_recv i s =
     (if i < length (loops s) \<and> loops s ! i = AtSelect then
        (case chan_recv (mailbox (actor s)) of
           Returns x c \<Rightarrow>
             Returns () (s\<lparr>actor := (actor s)\<lparr>mailbox := c\<rparr>, loops := (loops s)[i := Received x]\<rparr>)
         | Blocks \<Rightarrow> Blocks
         | Panics c \<Rightarrow> Panics s)
      else Blocks)"

text \<open>
  The body of that case: \<open>msg.Type()\<close> on a nil message (the zero value a closed
  mailbox would yield) is a nil dereference.
\<close>

definition loop_dispatch :: "nat \<Rightarrow> ('v, 'h) actor_sys \<Rightarrow> (unit, ('v, 'h) actor_sys) outcome" where
  "loop_dispatch i s =
     (if i < length (loops s) then
        (case loops s ! i of
           Received None \<Rightarrow> Panics s
         | Received (Some msg) \<Rightarrow>
             Returns () (s\<lparr>log := log s @ [(msg, handlers (actor s) (Type msg))],
                           loops := (loops s)[i := AtSelect]\<rparr>)
         | _ \<Rightarrow> Blocks)
      else Blocks)"

text \<open>The \<open>select\<close> of loop \<open>i\<close> takes \<open>case <-a.stop\<close>: return, then the deferred \<open>a.wg.Done()\<close>.\<close>

definition loop_exit :: "nat \<Rightarrow> ('v, 'h) actor_sys \<Rightarrow> (unit, ('v, 'h) actor_sys) outcome" where
  "loop_exit i s =
     (if i < length (loops s) \<and> loops s ! i = AtSelect \<and> recv_ready (stop (actor s)) then
        (case wg_done (actor s) of
           Returns u a \<Rightarrow> Returns () (s\<lparr>actor := a, loops := (loops s)[i := Exited]\<rparr>)
         | Blocks \<Rightarrow> Blocks
         | Panics a \<Rightarrow> Panics (s\<lparr>loops := (loops s)[i := Exited]\<rparr>))
      else Blocks)"

text \<open>\<open>Stop\<close> is \<open>close(a.stop)\<close> followed by \<open>a.wg.Wait()\<close>, which returns once the counter is 0.\<close>

definition Stop_close :: "('v, 'h) actor_sys \<Rightarrow> (unit, ('v, 'h) actor_sys) outcome" where
  "Stop_close s =
     (case chan_close (stop (actor s)) of
        Returns u c \<Rightarrow> Returns () (s\<lparr>actor := (actor s)\<lparr>stop := c\<rparr>, stopping := Suc (stopping s)\<rparr>)
      | Blocks \<Rightarrow> Blocks
      | Panics c \<Rightarrow> Panics s)"

definition Stop_wait :: "('v, 'h) actor_sys \<Rightarrow> (unit, ('v, 'h) actor_sys) outcome" where
  "Stop_wait s =
     (if 0 < stopping s \<and> wg (actor s) = 0 then Returns () (s\<lparr>stopping := stopping s - 1\<rparr>)
      else Blocks)"

text \<open>
  One scheduling step of the actor and its callers; a schedule is a list of steps.  A step
  that cannot be taken now (a blocked send, a loop that is not at that point) is \<open>Blocks\<close>;
  an unrecovered panic ends the run.
\<close>

datatype ('v, 'h) actor_action =
    DoRegister string 'h
  | DoSend "'v Message"
  | DoStart
  | LoopRecv nat
  | LoopDispatch nat
  | LoopExit nat
  | StopClose
  | StopReturn

fun actor_step :: "('v, 'h) actor_action \<Rightarrow> ('v, 'h) actor_sys \<Rightarrow> (unit, ('v, 'h) actor_sys) outcome" where
  "actor_step (DoRegister t h) s = Returns () (s\<lparr>actor := RegisterHandler (actor s) t h\<rparr>)"
| "actor_step (DoSend msg) s =
     (case Send (actor s) msg of
        Returns u a \<Rightarrow> Returns () (s\<lparr>actor := a\<rparr>)
      | Blocks \<Rightarrow> Blocks
      | Panics a \<Rightarrow> Panics (s\<lparr>actor := a\<rparr>))"
| "actor_step DoStart s = Returns () (Start s)"
| "actor_step (LoopRecv i) s = loop_recv i s"
| "actor_step (LoopDispatch i) s = loop_dispatch i s"
| "actor_step (LoopExit i) s = loop_exit i s"
| "actor_step StopClose s = Stop_close s"
| "actor_step StopReturn s = Stop_wait s"

fun actor_run :: "('v, 'h) actor_action list \<Rightarrow> ('v, 'h) actor_sys \<Rightarrow> (unit, ('v, 'h) actor_sys) outcome" where
  "actor_run [] s = Returns () s"
| "actor_run (a # as) s =
     (case actor_step a s of
        Returns u s' \<Rightarrow> actor_run as s'
      | Blocks \<Rightarrow> Blocks
      | Panics s' \<Rightarrow> Panics s')"



text \<open>The loops that have not returned; \<open>wg\<close> counts them.\<close>

fun live :: "'m loop_pc list \<Rightarrow> nat" where
  "live [] = 0"
| "live (Exited # ps) = live ps"
| "live (p # ps) = Suc (live ps)"

text \<open>What holds of an actor in every state a schedule reaches from \<open>NewActor\<close>.\<close>

definition actor_inv :: "('v, 'h) actor_sys \<Rightarrow> bool" where
  "actor_inv s =
     (cap (mailbox (actor s)) = 100 \<and> \<not> is_closed (mailbox (actor s))
      \<and> length (buf (mailbox (actor s))) \<le> 100
      \<and> buf (stop (actor s)) = []
      \<and> wg (actor s) = int (live (loops s)))"


text \<open>How often a schedule calls \<open>Start\<close>.\<close>

fun starts :: "('v, 'h) actor_action list \<Rightarrow> nat" where
  "starts [] = 0"
| "starts (DoStart # as) = Suc (starts as)"
| "starts (a # as) = starts as"

section \<open>Observable (03_reflection/README.md)\<close>

text \<open>
  \<open>observers []chan interface{}\<close> holds references to the channels \<open>Subscribe\<close>
  has made; \<open>chans\<close> is the store of these channels and a reference is an index into
  it.  \<open>mu\<close> is held for a whole method body, so each method is one atomic step.
  \<open>Subscribe\<close> returns \<open>nil\<close> (\<open>None\<close>) on a closed Observable.
\<close>

record 'a Observable =
  chans :: "'a chan list"
  observers :: "nat list"
  closed :: bool

definition NewObservable :: "'a Observable" where
  "NewObservable = \<lparr>chans = [], observers = [], closed = False\<rparr>"

definition Subscribe :: "'a Observable \<Rightarrow> (nat option, 'a Observable) outcome" where
  "Subscribe ob =
     (if closed ob then Returns None ob
      else let ch = length (chans ob) in
        Returns (Some ch) (ob\<lparr>chans := chans ob @ [make_chan 10], observers := observers ob @ [ch]\<rparr>))"

text \<open>
  The loop of \<open>Emit\<close>: \<open>select { case observer <- data: default: }\<close> sends when the
  send would not block and skips the observer otherwise.
\<close>

fun emit_each :: "nat list \<Rightarrow> 'a \<Rightarrow> 'a chan list \<Rightarrow> (unit, 'a chan list) outcome" where
  "emit_each [] data cs = Returns () cs"
| "emit_each (observer # rest) data cs =
     (case chan_send (cs ! observer) data of
        Returns u c \<Rightarrow> emit_each rest data (cs[observer := c])
      | Blocks \<Rightarrow> emit_each rest data cs
      | Panics c \<Rightarrow> Panics cs)"

definition Emit :: "'a Observable \<Rightarrow> 'a \<Rightarrow> (unit, 'a Observable) outcome" where
  "Emit ob data =
     (if closed ob then Returns () ob
      else case emit_each (observers ob) data (chans ob) of
        Returns u cs \<Rightarrow> Returns () (ob\<lparr>chans := cs\<rparr>)
      | Blocks \<Rightarrow> Blocks
      | Panics cs \<Rightarrow> Panics (ob\<lparr>chans := cs\<rparr>))"

fun close_each :: "nat list \<Rightarrow> 'a chan list \<Rightarrow> (unit, 'a chan list) outcome" where
  "close_each [] cs = Returns () cs"
| "close_each (observer # rest) cs =
     (case chan_close (cs ! observer) of
        Returns u c \<Rightarrow> close_each rest (cs[observer := c])
      | Blocks \<Rightarrow> Blocks
      | Panics c \<Rightarrow> Panics cs)"

definition Close :: "'a Observable \<Rightarrow> (unit, 'a Observable) outcome" where
  "Close ob =
     (let ob1 = ob\<lparr>closed := True\<rparr> in
      case close_each (observers ob1) (chans ob1) of
        Returns u cs \<Rightarrow> Returns () (ob1\<lparr>chans := cs, observers := []\<rparr>)
      | Blocks \<Rightarrow> Blocks
      | Panics cs \<Rightarrow> Panics (ob1\<lparr>chans := cs\<rparr>))"

text \<open>
  A subscriber receives from the channel it was given; a receive on the \<open>nil\<close> channel
  of a refused \<open>Subscribe\<close> blocks for ever.
\<close>

definition Receive :: "'a Observable \<Rightarrow> nat option \<Rightarrow> ('a option, 'a Observable) outcome" where
  "Receive ob r =
     (case r of
        None \<Rightarrow> Blocks
      | Some ch \<Rightarrow>
          if ch < length (chans ob) then
            (case chan_recv (chans ob ! ch) of
               Returns x c \<Rightarrow> Returns x (ob\<lparr>chans := (chans ob)[ch := c]\<rparr>)
             | Blocks \<Rightarrow> Blocks
             | Panics c \<Rightarrow> Panics ob)
          else Blocks)"

text \<open>The calls made on one Observable by its producers and subscribers, in the order they take effect.\<close>

datatype 'a obs_call = CallSubscribe | CallEmit 'a | CallClose | CallReceive "nat option"

fun obs_step :: "'a obs_call \<Rightarrow> 'a Observable \<Rightarrow> (unit, 'a Observable) outcome" where
  "obs_step CallSubscribe ob =
     (case Subscribe ob of
        Returns r ob' \<Rightarrow> Returns () ob' | Blocks \<Rightarrow> Blocks | Panics ob' \<Rightarrow> Panics ob')"
| "obs_step (CallEmit data) ob = Emit ob data"
| "obs_step CallClose ob = Close ob"
| "obs_step (CallReceive r) ob =
     (case Receive ob r of
        Returns x ob' \<Rightarrow> Returns () ob' | Blocks \<Rightarrow> Blocks | Panics ob' \<Rightarrow> Panics ob')"

fun obs_run :: "'a obs_call list \<Rightarrow> 'a Observable \<Rightarrow> (unit, 'a Observable) outcome" where
  "obs_run [] ob = Returns () ob"
| "obs_run (c # cs) ob =
     (case obs_step c ob of
        Returns u ob' \<Rightarrow> obs_run cs ob'
      | Blocks \<Rightarrow> Blocks
      | Panics ob' \<Rightarrow> Panics ob')"

text \<open>What holds of an Observable in every state these calls reach from \<open>NewObservable\<close>.\<close>

definition obs_inv :: "'a Observable \<Rightarrow> bool" where
  "obs_inv ob =
     (distinct (observers ob)
      \<and> (\<forall>ch \<in> set (observers ob). ch < length (chans ob) \<and> \<not> is_closed (chans ob ! ch))
      \<and> (\<forall>c \<in> set (chans ob). cap c = 10)
      \<and> (closed ob \<longrightarrow> observers ob = []))"

text \<open>The non-blocking send seen from one channel: the value is appended when there is room.\<close>

definition offer :: "'a \<Rightarrow> 'a chan \<Rightarrow> 'a chan" where
  "offer data c = (if length (buf c) < cap c then c\<lparr>buf := buf c @ [data]\<rparr> else c)"

section \<open>Pipeline stages (03_reflection/README.md, fan-out fan-in example)\<close>

text \<open>
  \<open>generate\<close> and \<open>square\<close> each make an unbuffered \<open>chan int\<close>, start a goroutine
  that writes to it, and close it (deferred) when the goroutine returns.  On an unbuffered
  channel a send completes only together with a receive, so one transfer is one joint step
  of the two goroutines; the buffers stay empty and only the closed flags matter.
  Go's \<open>int\<close> is taken as 64 bits wide, so \<open>n * n\<close> wraps.
\<close>

type_synonym go_int = "64 word"

text \<open>
  A goroutine of the form \<open>defer close(out); for n := range in { out <- f(n) }\<close> is
  at its \<open>range\<close>, or at its send with the value computed, or has returned.
\<close>

datatype 'a stage_pc = Ranging | Sending 'a | Finished

text \<open>
  \<open>square(generate(nums...))\<close> read by \<open>for result := range output\<close>.  \<open>nums\<close> are
  the values \<open>generate\<close> has not sent yet, \<open>gen_done\<close> says that its goroutine has
  returned, \<open>collected\<close> are the results the consumer has received.  The function
  applied by the middle stage is the parameter \<open>fn\<close>; \<open>square\<close> is the instance
  \<open>sq\<close>.
\<close>

record pipeline =
  nums :: "go_int list"
  gen_done :: bool
  gen_out :: "go_int chan"
  sq_pc :: "go_int stage_pc"
  sq_out :: "go_int chan"
  collected :: "go_int list"
  consumer_done :: bool

definition sq :: "go_int \<Rightarrow> go_int" where
  "sq n = n * n"

definition pipeline_start :: "go_int list \<Rightarrow> pipeline" where
  "pipeline_start ns =
     \<lparr>nums = ns, gen_done = False, gen_out = make_chan 0, sq_pc = Ranging,
      sq_out = make_chan 0, collected = [], consumer_done = False\<rparr>"

datatype pipe_action = GenSend | GenClose | SqEnd | SqSend | ConsumerEnd

text \<open>
  \<open>GenSend\<close>: \<open>out <- n\<close> of \<open>generate\<close> meets the \<open>range\<close> of the stage.
  \<open>GenClose\<close>: the loop of \<open>generate\<close> is over, the deferred \<open>close(out)\<close> runs.
  \<open>SqEnd\<close>: the \<open>range\<close> of the stage sees its input closed and empty; the deferred
  \<open>close(out)\<close> runs.  \<open>SqSend\<close>: \<open>out <- n * n\<close> meets the consumer's \<open>range\<close>.
  \<open>ConsumerEnd\<close>: the consumer's \<open>range\<close> sees the output closed.
\<close>

fun pipe_step :: "(go_int \<Rightarrow> go_int) \<Rightarrow> pipe_action \<Rightarrow> pipeline \<Rightarrow> (unit, pipeline) outcome" where
  "pipe_step fn GenSend s =
     (case nums s of
        [] \<Rightarrow> Blocks
      | n # rest \<Rightarrow>
          if gen_done s then Blocks
          else if is_closed (gen_out s) then Panics s
          else if sq_pc s = Ranging then Returns () (s\<lparr>nums := rest, sq_pc := Sending (fn n)\<rparr>)
          else Blocks)"
| "pipe_step fn GenClose s =
     (if nums s = [] \<and> \<not> gen_done s then
        (case chan_close (gen_out s) of
           Returns u c \<Rightarrow> Returns () (s\<lparr>gen_out := c, gen_done := True\<rparr>)
         | Blocks \<Rightarrow> Blocks
         | Panics c \<Rightarrow> Panics (s\<lparr>gen_done := True\<rparr>))
      else Blocks)"
| "pipe_step fn SqEnd s =
     (if sq_pc s = Ranging then
        (case chan_recv (gen_out s) of
           Returns None c \<Rightarrow>
             (case chan_close (sq_out s) of
                Returns u c' \<Rightarrow> Returns () (s\<lparr>sq_out := c', sq_pc := Finished\<rparr>)
              | Blocks \<Rightarrow> Blocks
              | Panics c' \<Rightarrow> Panics (s\<lparr>sq_pc := Finished\<rparr>))
         | _ \<Rightarrow> Blocks)
      else Blocks)"
| "pipe_step fn SqSend s =
     (case sq_pc s of
        Sending v \<Rightarrow>
          if is_closed (sq_out s) then Panics s
          else if consumer_done s then Blocks
          else Returns () (s\<lparr>collected := collected s @ [v], sq_pc := Ranging\<rparr>)
      | _ \<Rightarrow> Blocks)"
| "pipe_step fn ConsumerEnd s =
     (if consumer_done s then Blocks
      else case chan_recv (sq_out s) of
        Returns None c \<Rightarrow> Returns () (s\<lparr>consumer_done := True\<rparr>)
      | _ \<Rightarrow> Blocks)"

fun pipe_run :: "(go_int \<Rightarrow> go_int) \<Rightarrow> pipe_action list \<Rightarrow> pipeline \<Rightarrow> (unit, pipeline) outcome" where
  "pipe_run fn [] s = Returns () s"
| "pipe_run fn (a # as) s =
     (case pipe_step fn a s of
        Returns u s' \<Rightarrow> pipe_run fn as s'
      | Blocks \<Rightarrow> Blocks
      | Panics s' \<Rightarrow> Panics s')"

text \<open>The value a stage has computed and not yet handed on.\<close>

fun in_flight :: "'a stage_pc \<Rightarrow> 'a list" where
  "in_flight (Sending v) = [v]"
| "in_flight p = []"

text \<open>The number of steps the pipeline can still take.\<close>

fun pc_weight :: "'a stage_pc \<Rightarrow> nat" where
  "pc_weight Ranging = 1"
| "pc_weight (Sending v) = 2"
| "pc_weight Finished = 0"

definition pipe_left :: "pipeline \<Rightarrow> nat" where
  "pipe_left s =
     2 * length (nums s) + (if gen_done s then 0 else 1) + pc_weight (sq_pc s)
       + (if consumer_done s then 0 else 1)"

text \<open>What holds in every state a schedule reaches from \<open>pipeline_start ns\<close>.\<close>

definition pipe_inv :: "(go_int \<Rightarrow> go_int) \<Rightarrow> go_int list \<Rightarrow> pipeline \<Rightarrow> bool" where
  "pipe_inv fn ns s =
     ((\<exists>passed. ns = passed @ nums s \<and> collected s @ in_flight (sq_pc s) = map fn passed)
      \<and> buf (gen_out s) = [] \<and> buf (sq_out s) = []
      \<and> is_closed (gen_out s) = gen_done s
      \<and> (gen_done s \<longrightarrow> nums s = [])
      \<and> is_closed (sq_out s) = (sq_pc s = Finished)
      \<and> (sq_pc s = Finished \<longrightarrow> gen_done s)
      \<and> (consumer_done s \<longrightarrow> sq_pc s = Finished))"

section \<open>merge (03_reflection/README.md, fan-out fan-in example)\<close>

text \<open>
  \<open>merge(cs...)\<close> makes the unbuffered \<open>out\<close>, adds \<open>len(cs)\<close> to the wait group,
  starts one goroutine \<open>output(c)\<close> per input and one goroutine that waits for the group
  and closes \<open>out\<close>.  A lane is one input channel \<open>c\<close> (of any capacity) with the
  values its producer has still to send (\<open>todo\<close>) and the state of its \<open>output(c)\<close>
  goroutine (\<open>fwd\<close>).  A producer sends its values in order and then closes its channel.
\<close>

record 'a lane =
  todo :: "'a list"
  inp :: "'a chan"
  fwd :: "'a stage_pc"

record 'a merger =
  lanes :: "'a lane list"
  wg_count :: int
  out :: "'a chan"
  closer_done :: bool
  received :: "'a list"
  reader_done :: bool

definition merge_start :: "('a list \<times> 'a chan) list \<Rightarrow> 'a merger" where
  "merge_start ins =
     \<lparr>lanes = map (\<lambda>(xs, c). \<lparr>todo = xs, inp = c, fwd = Ranging\<rparr>) ins,
      wg_count = int (length ins), out = make_chan 0, closer_done = False,
      received = [], reader_done = False\<rparr>"

text \<open>
  \<open>Produce i\<close>: the producer of input \<open>i\<close> sends into the buffer of \<open>c\<close>.
  \<open>Handoff i\<close>: its send meets the \<open>range c\<close> of \<open>output(c)\<close> directly (the only way
  on an unbuffered \<open>c\<close>).  \<open>InClose i\<close>: having sent everything, it closes \<open>c\<close>.
  \<open>FwdRecv i\<close>: \<open>range c\<close> takes a buffered value, or sees \<open>c\<close> closed and empty, and
  then \<open>output\<close> returns and the deferred \<open>wg.Done()\<close> runs.  \<open>FwdSend i\<close>:
  \<open>out <- n\<close> meets the reader's \<open>range\<close>.  \<open>WaitClose\<close>: \<open>wg.Wait()\<close> returns
  and \<open>close(out)\<close> runs.  \<open>ReaderEnd\<close>: the reader's \<open>range\<close> sees \<open>out\<close> closed.
\<close>

datatype merge_action =
    Produce nat | Handoff nat | InClose nat | FwdRecv nat | FwdSend nat | WaitClose | ReaderEnd

definition set_lane :: "'a merger \<Rightarrow> nat \<Rightarrow> 'a lane \<Rightarrow> 'a merger" where
  "set_lane s i l = s\<lparr>lanes := (lanes s)[i := l]\<rparr>"

fun merge_step :: "merge_action \<Rightarrow> 'a merger \<Rightarrow> (unit, 'a merger) outcome" where
  "merge_step (Produce i) s =
     (if i < length (lanes s) then
        (let l = lanes s ! i in
         case todo l of
           [] \<Rightarrow> Blocks
         | x # xs \<Rightarrow>
             (case chan_send (inp l) x of
                Returns u c \<Rightarrow> Returns () (set_lane s i (l\<lparr>todo := xs, inp := c\<rparr>))
              | Blocks \<Rightarrow> Blocks
              | Panics c \<Rightarrow> Panics s))
      else Blocks)"
| "merge_step (Handoff i) s =
     (if i < length (lanes s) then
        (let l = lanes s ! i in
         case todo l of
           [] \<Rightarrow> Blocks
         | x # xs \<Rightarrow>
             if is_closed (inp l) then Panics s
             else if buf (inp l) = [] \<and> fwd l = Ranging
               then Returns () (set_lane s i (l\<lparr>todo := xs, fwd := Sending x\<rparr>))
             else Blocks)
      else Blocks)"
| "merge_step (InClose i) s =
     (if i < length (lanes s) then
        (let l = lanes s ! i in
         if todo l = [] \<and> \<not> is_closed (inp l) then
           (case chan_close (inp l) of
              Returns u c \<Rightarrow> Returns () (set_lane s i (l\<lparr>inp := c\<rparr>))
            | Blocks \<Rightarrow> Blocks
            | Panics c \<Rightarrow> Panics s)
         else Blocks)
      else Blocks)"
| "merge_step (FwdRecv i) s =
     (if i < length (lanes s) then
        (let l = lanes s ! i in
         if fwd l = Ranging then
           (case chan_recv (inp l) of
              Returns (Some x) c \<Rightarrow> Returns () (set_lane s i (l\<lparr>inp := c, fwd := Sending x\<rparr>))
            | Returns None c \<Rightarrow>
                if wg_count s - 1 < 0 then Panics (set_lane s i (l\<lparr>fwd := Finished\<rparr>))
                else Returns () ((set_lane s i (l\<lparr>fwd := Finished\<rparr>))\<lparr>wg_count := wg_count s - 1\<rparr>)
            | Blocks \<Rightarrow> Blocks
            | Panics c \<Rightarrow> Panics s)
         else Blocks)
      else Blocks)"
| "merge_step (FwdSend i) s =
     (if i < length (lanes s) then
        (let l = lanes s ! i in
         case fwd l of
           Sending x \<Rightarrow>
             if is_closed (out s) then Panics s
             else if reader_done s then Blocks
             else Returns () ((set_lane s i (l\<lparr>fwd := Ranging\<rparr>))\<lparr>received := received s @ [x]\<rparr>)
         | _ \<Rightarrow> Blocks)
      else Blocks)"
| "merge_step WaitClose s =
     (if \<not> closer_done s \<and> wg_count s = 0 then
        (case chan_close (out s) of
           Returns u c \<Rightarrow> Returns () (s\<lparr>out := c, closer_done := True\<rparr>)
         | Blocks \<Rightarrow> Blocks
         | Panics c \<Rightarrow> Panics (s\<lparr>closer_done := True\<rparr>))
      else Blocks)"
| "merge_step ReaderEnd s =
     (if reader_done s then Blocks
      else case chan_recv (out s) of
        Returns None c \<Rightarrow> Returns () (s\<lparr>reader_done := True\<rparr>)
      | _ \<Rightarrow> Blocks)"

fun merge_run :: "merge_action list \<Rightarrow> 'a merger \<Rightarrow> (unit, 'a merger) outcome" where
  "merge_run [] s = Returns () s"
| "merge_run (a # as) s =
     (case merge_step a s of
        Returns u s' \<Rightarrow> merge_run as s'
      | Blocks \<Rightarrow> Blocks
      | Panics s' \<Rightarrow> Panics s')"

text \<open>
  The values a lane still has to deliver, whether its \<open>output\<close> goroutine is running,
  and the number of steps it can still take.
\<close>

definition lane_content :: "'a lane \<Rightarrow> 'a multiset" where
  "lane_content l = mset (in_flight (fwd l) @ buf (inp l) @ todo l)"

definition active :: "'a lane \<Rightarrow> nat" where
  "active l = (if fwd l = Finished then 0 else 1)"

definition lane_left :: "'a lane \<Rightarrow> nat" where
  "lane_left l =
     3 * length (todo l) + 2 * length (buf (inp l)) + (if is_closed (inp l) then 0 else 1)
       + pc_weight (fwd l)"

definition merge_left :: "'a merger \<Rightarrow> nat" where
  "merge_left s =
     sum_list (map lane_left (lanes s)) + (if closer_done s then 0 else 1)
       + (if reader_done s then 0 else 1)"

text \<open>The values the input streams carry: what is buffered and what is still to be sent.\<close>

definition carried :: "('a list \<times> 'a chan) list \<Rightarrow> 'a multiset" where
  "carried ins = sum_list (map (\<lambda>(xs, c). mset (buf c @ xs)) ins)"

text \<open>A closed stream has nothing left to send.\<close>

definition streams_ok :: "('a list \<times> 'a chan) list \<Rightarrow> bool" where
  "streams_ok ins = list_all (\<lambda>(xs, c). is_closed c \<longrightarrow> xs = []) ins"

text \<open>What holds in every state a schedule reaches from \<open>merge_start ins\<close>.\<close>

definition lane_ok :: "'a lane \<Rightarrow> bool" where
  "lane_ok l =
     ((is_closed (inp l) \<longrightarrow> todo l = [])
      \<and> (fwd l = Finished \<longrightarrow> is_closed (inp l) \<and> buf (inp l) = []))"

definition merge_inv :: "'a multiset \<Rightarrow> 'a merger \<Rightarrow> bool" where
  "merge_inv every s =
     (list_all lane_ok (lanes s)
      \<and> wg_count s = int (sum_list (map active (lanes s)))
      \<and> buf (out s) = []
      \<and> closer_done s = is_closed (out s)
      \<and> (closer_done s \<longrightarrow> wg_count s = 0)
      \<and> (reader_done s \<longrightarrow> closer_done s)
      \<and> mset (received s) + sum_list (map lane_content (lanes s)) = every)"

section \<open>Properties of the Future\<close>

lemma closed_stays: "is_closed (done_ch f) \<Longrightarrow> is_closed (done_ch (state_after (call c f) f))"
  by (cases c) (simp_all add: SetResult_def SetError_def chan_close_def Let_def)

lemma call_closes: "is_closed (done_ch (state_after (call c f) f))"
  by (cases c) (simp_all add: SetResult_def SetError_def chan_close_def Let_def)

lemma race_closed_panics:
  "is_closed (done_ch f) \<Longrightarrow> race cs f = (rs, f') \<Longrightarrow>
     (\<forall>r \<in> set rs. panicked r) \<and> length rs = length cs \<and> is_closed (done_ch f')"
proof (induction cs arbitrary: f rs f')
  case Nil
  then show ?case by simp
next
  case (Cons c cs)
  obtain rs1 f1 where r1: "race cs (state_after (call c f) f) = (rs1, f1)"
    by (cases "race cs (state_after (call c f) f)")
  have cl: "is_closed (done_ch (state_after (call c f) f))"
    by (rule call_closes)
  have p: "panicked (call c f)"
    using Cons.prems(1) by (cases c) (simp_all add: SetResult_def SetError_def chan_close_def Let_def)
  from Cons.IH[OF cl r1] Cons.prems(2) r1 p show ?case
    by auto
qed

lemma call_keeps_buf: "buf (done_ch (state_after (call c f) f)) = buf (done_ch f)"
  by (cases c) (simp_all add: SetResult_def SetError_def chan_close_def Let_def)

lemma race_keeps_buf: "race cs f = (rs, f') \<Longrightarrow> buf (done_ch f') = buf (done_ch f)"
proof (induction cs arbitrary: f rs f')
  case Nil
  then show ?case by simp
next
  case (Cons c cs)
  obtain rs1 f1 where r1: "race cs (state_after (call c f) f) = (rs1, f1)"
    by (cases "race cs (state_after (call c f) f)")
  from Cons.IH[OF r1] Cons.prems r1 show ?case
    by (simp add: call_keeps_buf)
qed

lemma race_unassigned: "\<not> is_closed (done_ch (snd (race cs NewFuture))) \<Longrightarrow> cs = []"
proof (cases cs)
  case Nil
  then show ?thesis by simp
next
  case (Cons c cs')
  assume a: "\<not> is_closed (done_ch (snd (race cs NewFuture)))"
  obtain rs1 f1 where r1: "race cs' (state_after (call c NewFuture) NewFuture) = (rs1, f1)"
    by (cases "race cs' (state_after (call c NewFuture) NewFuture)")
  from race_closed_panics[OF call_closes r1] have "is_closed (done_ch f1)" by simp
  with a Cons r1 show ?thesis by simp
qed

text \<open>
  C1 as stated fails: a second \<open>SetResult\<close> on a Future that was set is not rejected
  with an error.  It overwrites \<open>result\<close> (1 becomes 2) and then panics, since
  \<open>close(f.done)\<close> closes a closed channel.
\<close>

theorem set_twice_counterexample:
  "SetResult (NewFuture :: nat Future) (Some 1)
     = Returns () \<lparr>result = Some 1, err = None, done_ch = \<lparr>buf = [], cap = 0, is_closed = True\<rparr>\<rparr>
   \<and> SetResult \<lparr>result = Some (1::nat), err = None, done_ch = \<lparr>buf = [], cap = 0, is_closed = True\<rparr>\<rparr> (Some 2)
     = Panics \<lparr>result = Some 2, err = None, done_ch = \<lparr>buf = [], cap = 0, is_closed = True\<rparr>\<rparr>"
  by (simp add: SetResult_def NewFuture_def make_chan_def chan_close_def Let_def)

text \<open>
  C1, amended: on a Future that was set (\<open>done\<close> is closed), every later
  \<open>SetResult\<close> or \<open>SetError\<close> writes its slot and panics; no error value is
  returned.  When K callers race (in the order they take \<open>mu\<close>), the first call returns
  and closes \<open>done\<close>, and each of the K-1 later calls panics; \<open>Get\<close> then returns
  the two slots as they were last written.
\<close>

theorem later_set_panics:
  "(is_closed (done_ch f) \<longrightarrow>
      SetResult f r = Panics (f\<lparr>result := r\<rparr>) \<and> SetError f e = Panics (f\<lparr>err := e\<rparr>))
   \<and> (race (c # cs) NewFuture = (rs, f') \<longrightarrow>
      length rs = Suc (length cs) \<and> returned (hd rs) \<and> (\<forall>r \<in> set (tl rs). panicked r)
      \<and> is_closed (done_ch f') \<and> Get f' = Returns (result f', err f') f')"
proof (intro conjI impI)
  assume "is_closed (done_ch f)"
  then show "SetResult f r = Panics (f\<lparr>result := r\<rparr>)"
    by (simp add: SetResult_def chan_close_def Let_def)
next
  assume "is_closed (done_ch f)"
  then show "SetError f e = Panics (f\<lparr>err := e\<rparr>)"
    by (simp add: SetError_def chan_close_def Let_def)
next
  assume a: "race (c # cs) NewFuture = (rs, f')"
  obtain rs1 f1 where r1: "race cs (state_after (call c NewFuture) NewFuture) = (rs1, f1)"
    by (cases "race cs (state_after (call c NewFuture) NewFuture)")
  have ret: "returned (call c (NewFuture :: 'b Future))"
    by (cases c) (simp_all add: SetResult_def SetError_def chan_close_def NewFuture_def make_chan_def Let_def)
  from a r1 have rs: "rs = call c NewFuture # rs1" and f': "f' = f1" by simp_all
  note t = race_closed_panics[OF call_closes r1]
  show "length rs = Suc (length cs)" using rs t by simp
  show "returned (hd rs)" using rs ret by simp
  show "\<forall>r \<in> set (tl rs). panicked r" using rs t by simp
  show cl: "is_closed (done_ch f')" using f' t by simp
  have "buf (done_ch f') = []"
    using race_keeps_buf[OF a] by (simp add: NewFuture_def make_chan_def)
  with cl show "Get f' = Returns (result f', err f') f'"
    by (simp add: Get_def chan_recv_def)
qed

theorem later_set_panics_witness:
  "race [CallSetResult (Some (1::nat)), CallSetError (Some (Err ''late'')), CallSetResult (Some 2)] NewFuture
     = ([Returns () \<lparr>result = Some 1, err = None, done_ch = \<lparr>buf = [], cap = 0, is_closed = True\<rparr>\<rparr>,
         Panics \<lparr>result = Some 1, err = Some (Err ''late''), done_ch = \<lparr>buf = [], cap = 0, is_closed = True\<rparr>\<rparr>,
         Panics \<lparr>result = Some 2, err = Some (Err ''late''), done_ch = \<lparr>buf = [], cap = 0, is_closed = True\<rparr>\<rparr>],
        \<lparr>result = Some 2, err = Some (Err ''late''), done_ch = \<lparr>buf = [], cap = 0, is_closed = True\<rparr>\<rparr>)
   \<and> SetResult \<lparr>result = Some (1::nat), err = None, done_ch = \<lparr>buf = [], cap = 0, is_closed = True\<rparr>\<rparr> (Some 2)
     = Panics \<lparr>result = Some 2, err = None, done_ch = \<lparr>buf = [], cap = 0, is_closed = True\<rparr>\<rparr>"
  using later_set_panics[of "\<lparr>result = Some (1::nat), err = None, done_ch = \<lparr>buf = [], cap = 0, is_closed = True\<rparr>\<rparr>"
      "Some 2" None "CallSetResult (Some (1::nat))" "[CallSetError (Some (Err ''late'')), CallSetResult (Some 2)]"]
  by (simp add: SetResult_def SetError_def NewFuture_def make_chan_def chan_close_def Let_def)

text \<open>
  C2: on a Future that is not yet assigned, a \<open>GetWithTimeout\<close> whose timer has
  fired returns \<open>nil\<close> with the timeout error and leaves the Future as it was; a later
  \<open>Get\<close> blocks, and after the assignment it returns the assigned value.
\<close>

theorem timeout_then_get:
  assumes "f = snd (race cs NewFuture)" and "\<not> IsDone f" and "recv_ready timer"
  shows "GetWithTimeout f d timer pick = Returns (None, Some (TimeoutAfter d)) f
       \<and> Get f = Blocks
       \<and> (\<forall>r f'. SetResult f r = Returns () f' \<longrightarrow> Get f' = Returns (r, None) f')
       \<and> (\<forall>e f'. SetError f e = Returns () f' \<longrightarrow> Get f' = Returns (None, e) f')"
proof -
  from assms(1,2) have "cs = []"
    using race_unassigned[of cs] by (simp add: IsDone_def recv_ready_def)
  with assms(1) have f: "f = NewFuture" by simp
  show ?thesis using assms(3)
    by (auto simp: f GetWithTimeout_def Get_def SetResult_def SetError_def NewFuture_def
        make_chan_def chan_close_def chan_recv_def recv_ready_def Let_def)
qed

theorem timeout_then_get_witness:
  "\<not> IsDone (NewFuture :: nat Future) \<and> recv_ready \<lparr>buf = [()], cap = 1, is_closed = False\<rparr>
   \<and> GetWithTimeout (NewFuture :: nat Future) 50 \<lparr>buf = [()], cap = 1, is_closed = False\<rparr> False
       = Returns (None, Some (TimeoutAfter 50)) NewFuture
   \<and> Get (NewFuture :: nat Future) = Blocks
   \<and> Get \<lparr>result = Some (42::nat), err = None, done_ch = \<lparr>buf = [], cap = 0, is_closed = True\<rparr>\<rparr>
       = Returns (Some 42, None)
           \<lparr>result = Some 42, err = None, done_ch = \<lparr>buf = [], cap = 0, is_closed = True\<rparr>\<rparr>"
proof -
  have r: "(NewFuture :: nat Future) = snd (race [] NewFuture)" by simp
  have d: "\<not> IsDone (NewFuture :: nat Future)"
    by (simp add: IsDone_def recv_ready_def NewFuture_def make_chan_def)
  have t: "recv_ready \<lparr>buf = [()], cap = 1, is_closed = False\<rparr>"
    by (simp add: recv_ready_def)
  have s: "SetResult (NewFuture :: nat Future) (Some 42)
      = Returns () \<lparr>result = Some 42, err = None, done_ch = \<lparr>buf = [], cap = 0, is_closed = True\<rparr>\<rparr>"
    by (simp add: SetResult_def NewFuture_def make_chan_def chan_close_def Let_def)
  from timeout_then_get[OF r d t, of 50 False] s d t show ?thesis by simp
qed

section \<open>Properties of the Actor\<close>

lemmas actor_defs = spawn_actor_def NewActor_def make_chan_def RegisterHandler_def Send_def
  chan_send_def chan_recv_def chan_close_def recv_ready_def wg_done_def Start_def loop_recv_def
  loop_dispatch_def loop_exit_def Stop_close_def Stop_wait_def

lemma actor_run_append:
  "actor_run (as @ bs) s =
     (case actor_run as s of Returns u s' \<Rightarrow> actor_run bs s' | Blocks \<Rightarrow> Blocks | Panics s' \<Rightarrow> Panics s')"
  by (induction as arbitrary: s) (auto split: outcome.splits)

lemma actor_run_snoc:
  "actor_run (as @ [a]) s = Returns () s' \<longleftrightarrow>
     (\<exists>s1. actor_run as s = Returns () s1 \<and> actor_step a s1 = Returns () s')"
  by (auto simp: actor_run_append split: outcome.splits)

lemma live_update_same:
  "i < length ps \<Longrightarrow> ps ! i \<noteq> Exited \<Longrightarrow> q \<noteq> Exited \<Longrightarrow> live (ps[i := q]) = live ps"
proof (induction ps arbitrary: i)
  case Nil
  then show ?case by simp
next
  case (Cons p ps)
  show ?case
  proof (cases i)
    case 0
    with Cons.prems show ?thesis by (cases p; cases q) simp_all
  next
    case (Suc j)
    with Cons show ?thesis by (cases p) simp_all
  qed
qed

lemma live_update_exit:
  "i < length ps \<Longrightarrow> ps ! i \<noteq> Exited \<Longrightarrow> Suc (live (ps[i := Exited])) = live ps"
proof (induction ps arbitrary: i)
  case Nil
  then show ?case by simp
next
  case (Cons p ps)
  show ?case
  proof (cases i)
    case 0
    with Cons.prems show ?thesis by (cases p) simp_all
  next
    case (Suc j)
    with Cons show ?thesis by (cases p) simp_all
  qed
qed

lemma live_snoc: "live (ps @ [AtSelect]) = Suc (live ps)"
  by (induction ps rule: live.induct) simp_all

lemma live_zero: "live ps = 0 \<longleftrightarrow> (\<forall>p \<in> set ps. p = Exited)"
  by (induction ps rule: live.induct) simp_all

lemma spawn_inv: "actor_inv (spawn_actor ident)"
  by (simp add: actor_inv_def spawn_actor_def NewActor_def make_chan_def)

lemma step_inv:
  assumes "actor_inv s" and "actor_step a s = Returns () s'"
  shows "actor_inv s'"
proof (cases a)
  case (DoRegister t h)
  with assms show ?thesis by (auto simp: actor_inv_def RegisterHandler_def)
next
  case (DoSend msg)
  with assms show ?thesis
    by (auto simp: actor_inv_def Send_def chan_send_def split: if_splits)
next
  case DoStart
  with assms show ?thesis by (auto simp: actor_inv_def Start_def live_snoc)
next
  case (LoopRecv i)
  with assms show ?thesis
    by (auto simp: actor_inv_def loop_recv_def chan_recv_def live_update_same
        split: if_splits list.splits)
next
  case (LoopDispatch i)
  with assms show ?thesis
    by (auto simp: actor_inv_def loop_dispatch_def live_update_same
        split: if_splits loop_pc.splits option.splits)
next
  case (LoopExit i)
  with assms show ?thesis
    using live_update_exit[of i "loops s"]
    by (auto simp: actor_inv_def loop_exit_def wg_done_def split: if_splits)
next
  case StopClose
  with assms show ?thesis
    by (auto simp: actor_inv_def Stop_close_def chan_close_def split: if_splits)
next
  case StopReturn
  with assms show ?thesis
    by (auto simp: actor_inv_def Stop_wait_def split: if_splits)
qed

lemma run_inv:
  "actor_inv s \<Longrightarrow> actor_run sched s = Returns () s' \<Longrightarrow> actor_inv s'"
proof (induction sched arbitrary: s)
  case Nil
  then show ?case by simp
next
  case (Cons a as)
  then show ?case by (auto split: outcome.splits dest: step_inv)
qed









lemma sends_run:
  "\<not> is_closed (mailbox (actor s)) \<Longrightarrow>
   length (buf (mailbox (actor s))) + length msgs \<le> cap (mailbox (actor s)) \<Longrightarrow>
   actor_run (map DoSend msgs) s =
     Returns () (s\<lparr>actor := (actor s)\<lparr>mailbox := (mailbox (actor s))\<lparr>buf := buf (mailbox (actor s)) @ msgs\<rparr>\<rparr>\<rparr>)"
proof (induction msgs arbitrary: s)
  case Nil
  then show ?case by simp
next
  case (Cons m ms)
  let ?s1 = "s\<lparr>actor := (actor s)\<lparr>mailbox := (mailbox (actor s))\<lparr>buf := buf (mailbox (actor s)) @ [m]\<rparr>\<rparr>\<rparr>"
  have st: "actor_step (DoSend m) s = Returns () ?s1"
    using Cons.prems by (simp add: Send_def chan_send_def)
  have "actor_run (map DoSend ms) ?s1 =
     Returns () (?s1\<lparr>actor := (actor ?s1)\<lparr>mailbox := (mailbox (actor ?s1))\<lparr>buf := buf (mailbox (actor ?s1)) @ ms\<rparr>\<rparr>\<rparr>)"
    by (rule Cons.IH) (use Cons.prems in simp_all)
  with st show ?case by simp
qed


lemma live_zero_nth: "live ps = 0 \<Longrightarrow> i < length ps \<Longrightarrow> ps ! i = Exited"
  by (simp add: live_zero)

lemma idle_step:
  assumes "live (loops s) = 0" and "starts [a] = 0"
    and "actor_step a s = Returns () s' \<or> actor_step a s = Panics s'"
  shows "live (loops s') = 0 \<and> log s' = log s
       \<and> prefix (buf (mailbox (actor s))) (buf (mailbox (actor s')))"
proof (cases a)
  case (DoRegister t h)
  with assms show ?thesis by (auto simp: RegisterHandler_def)
next
  case (DoSend msg)
  with assms show ?thesis
    by (auto simp: Send_def chan_send_def split: if_splits)
next
  case DoStart
  with assms show ?thesis by simp
next
  case (LoopRecv i)
  with assms show ?thesis
    using live_zero_nth[of "loops s" i] by (auto simp: loop_recv_def split: if_splits)
next
  case (LoopDispatch i)
  with assms show ?thesis
    using live_zero_nth[of "loops s" i] by (auto simp: loop_dispatch_def split: if_splits)
next
  case (LoopExit i)
  with assms show ?thesis
    using live_zero_nth[of "loops s" i] by (auto simp: loop_exit_def split: if_splits)
next
  case StopClose
  with assms show ?thesis
    by (auto simp: Stop_close_def chan_close_def split: if_splits)
next
  case StopReturn
  with assms show ?thesis
    by (auto simp: Stop_wait_def split: if_splits)
qed

lemma idle_run:
  "live (loops s) = 0 \<Longrightarrow> starts post = 0 \<Longrightarrow>
   actor_run post s = Returns () s' \<or> actor_run post s = Panics s' \<Longrightarrow>
   live (loops s') = 0 \<and> log s' = log s
     \<and> prefix (buf (mailbox (actor s))) (buf (mailbox (actor s')))"
proof (induction post arbitrary: s)
  case Nil
  then show ?case by simp
next
  case (Cons a as)
  from Cons.prems(2) have sa: "starts [a] = 0" and sas: "starts as = 0"
    by (cases a; simp)+
  show ?case
  proof (cases "actor_step a s")
    case (Returns u s1)
    from idle_step[OF Cons.prems(1) sa] Returns
    have 1: "live (loops s1) = 0" "log s1 = log s"
      "prefix (buf (mailbox (actor s))) (buf (mailbox (actor s1)))" by simp_all
    from Cons.prems(3) Returns
    have "actor_run as s1 = Returns () s' \<or> actor_run as s1 = Panics s'" by simp
    from Cons.IH[OF 1(1) sas this] 1 show ?thesis
      by (auto intro: prefix_order.trans)
  next
    case Blocks
    with Cons.prems show ?thesis by simp
  next
    case (Panics s1)
    with Cons.prems have "s' = s1" by simp
    with idle_step[OF Cons.prems(1) sa] Panics show ?thesis by simp
  qed
qed

lemma stop_returned_idle:
  assumes "actor_run (pre @ [StopReturn]) (spawn_actor ident) = Returns () s1"
  shows "live (loops s1) = 0"
proof -
  from assms obtain s0 where r: "actor_run pre (spawn_actor ident) = Returns () s0"
    and st: "Stop_wait s0 = Returns () s1"
    by (auto simp: actor_run_snoc)
  from run_inv[OF spawn_inv r] have "wg (actor s0) = int (live (loops s0))"
    by (simp add: actor_inv_def)
  with st show ?thesis by (auto simp: Stop_wait_def split: if_splits)
qed

lemma stop_closed_stays:
  "actor_run sched s = Returns () s' \<Longrightarrow>
   is_closed (stop (actor s)) \<or> StopClose \<in> set sched \<Longrightarrow> is_closed (stop (actor s'))"
proof (induction sched arbitrary: s)
  case Nil
  then show ?case by simp
next
  case (Cons a as)
  from Cons.prems(1) obtain s1 where st: "actor_step a s = Returns () s1"
    and r: "actor_run as s1 = Returns () s'"
    by (auto split: outcome.splits)
  have "is_closed (stop (actor s1)) \<or> StopClose \<in> set as"
    using Cons.prems(2) st
    by (cases a)
       (auto simp: RegisterHandler_def Send_def Start_def loop_recv_def loop_dispatch_def
          loop_exit_def Stop_close_def Stop_wait_def chan_close_def wg_done_def chan_send_def
          split: if_splits outcome.splits loop_pc.splits option.splits)
  from Cons.IH[OF r this] show ?case .
qed



text \<open>
  C9 as stated fails: \<open>Start\<close> has no guard, so it can be called after \<open>Stop\<close> has
  returned.  The new loop finds both cases of its \<open>select\<close> ready (a queued message and
  the closed \<open>stop\<close>) and may take the message: the message left in the mailbox is
  handed to its handler after all.
\<close>

theorem restart_delivers_counterexample:
  "actor_run ([DoRegister ''string'' 1, DoStart, DoSend (StringMessage ''x''), StopClose, LoopExit 0]
              @ [StopReturn]) (spawn_actor ''a'' :: (unit, nat) actor_sys)
     = Returns ()
        \<lparr>actor = \<lparr>ID = ''a'', mailbox = \<lparr>buf = [StringMessage ''x''], cap = 100, is_closed = False\<rparr>,
                   handlers = [''string'' \<mapsto> 1], wg = 0,
                   stop = \<lparr>buf = [], cap = 0, is_closed = True\<rparr>\<rparr>,
         loops = [Exited], log = [], stopping = 0\<rparr>
   \<and> actor_run [DoStart, LoopRecv 1, LoopDispatch 1]
        (\<lparr>actor = \<lparr>ID = ''a'', mailbox = \<lparr>buf = [StringMessage ''x''], cap = 100, is_closed = False\<rparr>,
                   handlers = [''string'' \<mapsto> 1], wg = 0,
                   stop = \<lparr>buf = [], cap = 0, is_closed = True\<rparr>\<rparr>,
         loops = [Exited], log = [], stopping = 0\<rparr> :: (unit, nat) actor_sys)
     = Returns ()
        \<lparr>actor = \<lparr>ID = ''a'', mailbox = \<lparr>buf = [], cap = 100, is_closed = False\<rparr>,
                   handlers = [''string'' \<mapsto> 1], wg = 1,
                   stop = \<lparr>buf = [], cap = 0, is_closed = True\<rparr>\<rparr>,
         loops = [Exited, AtSelect], log = [(StringMessage ''x'', Some 1)], stopping = 0\<rparr>"
  by (simp add: actor_defs)

text \<open>
  C9, amended: with messages queued, the loop may take the \<open>stop\<close> case at once:
  \<open>Stop\<close> returns, nothing was dispatched, and the messages are still in the mailbox.
  Once \<open>Stop\<close> has returned, and unless \<open>Start\<close> is called again, nothing more is
  dispatched whatever else happens, and the queued messages stay queued.
\<close>

theorem stop_leaves_mailbox:
  "(length msgs \<le> 100 \<longrightarrow>
      (\<exists>s. actor_run (DoStart # map DoSend msgs @ [StopClose, LoopExit 0, StopReturn])
                (spawn_actor ident :: ('v, 'h) actor_sys)
              = Returns () s
          \<and> log s = [] \<and> buf (mailbox (actor s)) = msgs))
   \<and> (actor_run (pre @ [StopReturn]) (spawn_actor ident) = Returns () s1 \<and> starts post = 0
      \<and> (actor_run post s1 = Returns () s2 \<or> actor_run post s1 = Panics s2) \<longrightarrow>
      log s2 = log s1 \<and> prefix (buf (mailbox (actor s1))) (buf (mailbox (actor s2))))"
proof (intro conjI impI)
  assume len: "length msgs \<le> 100"
  define s0 :: "('v, 'h) actor_sys" where "s0 = Start (spawn_actor ident)"
  have "actor_run (map DoSend msgs) s0 =
     Returns () (s0\<lparr>actor := (actor s0)\<lparr>mailbox := (mailbox (actor s0))\<lparr>buf := buf (mailbox (actor s0)) @ msgs\<rparr>\<rparr>\<rparr>)"
    by (rule sends_run) (simp_all add: len s0_def Start_def spawn_actor_def NewActor_def make_chan_def)
  then show "\<exists>s. actor_run (DoStart # map DoSend msgs @ [StopClose, LoopExit 0, StopReturn])
                (spawn_actor ident :: ('v, 'h) actor_sys)
              = Returns () s
          \<and> log s = [] \<and> buf (mailbox (actor s)) = msgs"
    by (simp add: actor_run_append s0_def Start_def spawn_actor_def NewActor_def make_chan_def
        Stop_close_def chan_close_def loop_exit_def recv_ready_def wg_done_def Stop_wait_def)
next
  assume a: "actor_run (pre @ [StopReturn]) (spawn_actor ident) = Returns () s1 \<and> starts post = 0
      \<and> (actor_run post s1 = Returns () s2 \<or> actor_run post s1 = Panics s2)"
  then have "live (loops s1) = 0" using stop_returned_idle by blast
  from idle_run[OF this] a
  have "log s2 = log s1 \<and> prefix (buf (mailbox (actor s1))) (buf (mailbox (actor s2)))"
    by blast
  then show "log s2 = log s1" and "prefix (buf (mailbox (actor s1))) (buf (mailbox (actor s2)))"
    by simp_all
qed

theorem stop_leaves_mailbox_witness:
  "(\<exists>s. actor_run (DoStart # map DoSend [StringMessage ''x'', NumberMessage 3]
              @ [StopClose, LoopExit 0, StopReturn]) (spawn_actor ''a'' :: (unit, nat) actor_sys)
            = Returns () s
        \<and> log s = [] \<and> buf (mailbox (actor s)) = [StringMessage ''x'', NumberMessage 3])
   \<and> actor_run ([DoStart, DoSend (StringMessage ''x''), StopClose, LoopExit 0] @ [StopReturn])
        (spawn_actor ''a'' :: (unit, nat) actor_sys)
      = Returns ()
         \<lparr>actor = \<lparr>ID = ''a'', mailbox = \<lparr>buf = [StringMessage ''x''], cap = 100, is_closed = False\<rparr>,
                    handlers = Map.empty, wg = 0, stop = \<lparr>buf = [], cap = 0, is_closed = True\<rparr>\<rparr>,
          loops = [Exited], log = [], stopping = 0\<rparr>
   \<and> actor_run [DoSend (NumberMessage 3), DoRegister ''number'' 5]
         \<lparr>actor = \<lparr>ID = ''a'', mailbox = \<lparr>buf = [StringMessage ''x''], cap = 100, is_closed = False\<rparr>,
                    handlers = Map.empty, wg = 0, stop = \<lparr>buf = [], cap = 0, is_closed = True\<rparr>\<rparr>,
          loops = [Exited], log = [], stopping = 0\<rparr>
      = Returns ()
         \<lparr>actor = \<lparr>ID = ''a'',
                    mailbox = \<lparr>buf = [StringMessage ''x'', NumberMessage 3], cap = 100, is_closed = False\<rparr>,
                    handlers = [''number'' \<mapsto> 5::nat], wg = 0,
                    stop = \<lparr>buf = [], cap = 0, is_closed = True\<rparr>\<rparr>,
          loops = [Exited], log = [], stopping = 0\<rparr>"
proof -
  let ?pre = "[DoStart, DoSend (StringMessage ''x''), StopClose, LoopExit 0] :: (unit, nat) actor_action list"
  let ?post = "[DoSend (NumberMessage 3), DoRegister ''number'' 5] :: (unit, nat) actor_action list"
  let ?u = "\<lparr>actor = \<lparr>ID = ''a'', mailbox = \<lparr>buf = [StringMessage ''x''], cap = 100, is_closed = False\<rparr>,
                    handlers = Map.empty, wg = 0, stop = \<lparr>buf = [], cap = 0, is_closed = True\<rparr>\<rparr>,
          loops = [Exited], log = [], stopping = 0\<rparr> :: (unit, nat) actor_sys"
  let ?w = "\<lparr>actor = \<lparr>ID = ''a'',
                    mailbox = \<lparr>buf = [StringMessage ''x'', NumberMessage 3], cap = 100, is_closed = False\<rparr>,
                    handlers = [''number'' \<mapsto> 5::nat], wg = 0,
                    stop = \<lparr>buf = [], cap = 0, is_closed = True\<rparr>\<rparr>,
          loops = [Exited], log = [], stopping = 0\<rparr> :: (unit, nat) actor_sys"
  have r1: "actor_run (?pre @ [StopReturn]) (spawn_actor ''a'') = Returns () ?u"
    by (simp add: actor_defs)
  have r2: "actor_run ?post ?u = Returns () ?w"
    by (simp add: actor_defs)
  from stop_leaves_mailbox[of "[StringMessage ''x'', NumberMessage 3]" "''a''" ?pre ?u ?post ?w] r1 r2
  show ?thesis by (simp add: actor_defs)
qed

text \<open>
  C10: in every state reached by a schedule in which \<open>Stop\<close> has closed the stop
  channel, the \<open>close(a.stop)\<close> of another \<open>Stop\<close> panics.
\<close>

theorem stop_twice_panics:
  assumes "actor_run sched (spawn_actor ident) = Returns () s" and "StopClose \<in> set sched"
  shows "Stop_close s = Panics s"
proof -
  from stop_closed_stays[OF assms(1)] assms(2) have "is_closed (stop (actor s))" by simp
  then show ?thesis by (simp add: Stop_close_def chan_close_def)
qed

theorem stop_twice_panics_witness:
  "Stop_close
     \<lparr>actor = \<lparr>ID = ''a'', mailbox = \<lparr>buf = [], cap = 100, is_closed = False\<rparr>,
                handlers = Map.empty, wg = 0, stop = \<lparr>buf = [], cap = 0, is_closed = True\<rparr>\<rparr>,
      loops = [Exited], log = [], stopping = 0\<rparr>
   = Panics
     (\<lparr>actor = \<lparr>ID = ''a'', mailbox = \<lparr>buf = [], cap = 100, is_closed = False\<rparr>,
                handlers = Map.empty, wg = 0, stop = \<lparr>buf = [], cap = 0, is_closed = True\<rparr>\<rparr>,
       loops = [Exited], log = [], stopping = 0\<rparr> :: (unit, nat) actor_sys)"
proof -
  let ?sched = "[DoStart, StopClose, LoopExit 0, StopReturn] :: (unit, nat) actor_action list"
  let ?s = "\<lparr>actor = \<lparr>ID = ''a'', mailbox = \<lparr>buf = [], cap = 100, is_closed = False\<rparr>,
                handlers = Map.empty, wg = 0, stop = \<lparr>buf = [], cap = 0, is_closed = True\<rparr>\<rparr>,
       loops = [Exited], log = [], stopping = 0\<rparr> :: (unit, nat) actor_sys"
  have r: "actor_run ?sched (spawn_actor ''a'') = Returns () ?s"
    by (simp add: actor_defs)
  have m: "StopClose \<in> set ?sched" by simp
  from stop_twice_panics[OF r m] show ?thesis .
qed

text \<open>
  C7 as stated fails: after \<open>Stop\<close> has returned, \<open>Send\<close> returns normally
  with the message queued; no error is reported.
\<close>

theorem send_after_stop_counterexample:
  "actor_run [DoStart, StopClose, LoopExit 0, StopReturn] (spawn_actor ''a'' :: (unit, nat) actor_sys)
   = Returns ()
      \<lparr>actor = \<lparr>ID = ''a'', mailbox = \<lparr>buf = [], cap = 100, is_closed = False\<rparr>,
                 handlers = Map.empty, wg = 0, stop = \<lparr>buf = [], cap = 0, is_closed = True\<rparr>\<rparr>,
       loops = [Exited], log = [], stopping = 0\<rparr>
   \<and> Send (\<lparr>ID = ''a'', mailbox = \<lparr>buf = [], cap = 100, is_closed = False\<rparr>,
             handlers = Map.empty, wg = 0, stop = \<lparr>buf = [], cap = 0, is_closed = True\<rparr>\<rparr>
            :: (unit, nat) Actor) (StringMessage ''late'')
   = Returns ()
      \<lparr>ID = ''a'', mailbox = \<lparr>buf = [StringMessage ''late''], cap = 100, is_closed = False\<rparr>,
       handlers = Map.empty, wg = 0, stop = \<lparr>buf = [], cap = 0, is_closed = True\<rparr>\<rparr>"
  by (simp add: actor_defs)

text \<open>
  C7, amended: in every state after \<open>Stop\<close> has returned, \<open>Send\<close> never
  panics and never reports an error: with fewer than 100 messages queued it queues the
  message and returns, with 100 queued it blocks.  Unless \<open>Start\<close> is called again,
  nothing is dispatched any more and the mailbox never shrinks.
\<close>

theorem send_after_stop:
  assumes "actor_run (pre @ [StopReturn]) (spawn_actor ident) = Returns () s1"
    and "actor_run post s1 = Returns () s"
  shows "Send (actor s) msg =
           (if length (buf (mailbox (actor s))) < 100
            then Returns () ((actor s)\<lparr>mailbox := (mailbox (actor s))\<lparr>buf := buf (mailbox (actor s)) @ [msg]\<rparr>\<rparr>)
            else Blocks)
       \<and> (starts post = 0 \<longrightarrow> log s = log s1 \<and> length (buf (mailbox (actor s1))) \<le> length (buf (mailbox (actor s))))"
proof -
  have "actor_inv s1" using run_inv[OF spawn_inv assms(1)] .
  then have "actor_inv s" using run_inv assms(2) by blast
  then have 1: "Send (actor s) msg =
           (if length (buf (mailbox (actor s))) < 100
            then Returns () ((actor s)\<lparr>mailbox := (mailbox (actor s))\<lparr>buf := buf (mailbox (actor s)) @ [msg]\<rparr>\<rparr>)
            else Blocks)"
    by (simp add: actor_inv_def Send_def chan_send_def)
  have "log s = log s1 \<and> length (buf (mailbox (actor s1))) \<le> length (buf (mailbox (actor s)))"
    if "starts post = 0"
  proof -
    have "live (loops s1) = 0" using stop_returned_idle[OF assms(1)] .
    from idle_run[OF this that] assms(2) show ?thesis
      by (auto dest: prefix_length_le)
  qed
  with 1 show ?thesis by blast
qed

theorem send_after_stop_witness:
  "Send (\<lparr>ID = ''a'', mailbox = \<lparr>buf = [NumberMessage 1], cap = 100, is_closed = False\<rparr>,
             handlers = Map.empty, wg = 0, stop = \<lparr>buf = [], cap = 0, is_closed = True\<rparr>\<rparr>
            :: (unit, nat) Actor) (StringMessage ''late'')
   = Returns ()
      \<lparr>ID = ''a'', mailbox = \<lparr>buf = [NumberMessage 1, StringMessage ''late''], cap = 100, is_closed = False\<rparr>,
       handlers = Map.empty, wg = 0, stop = \<lparr>buf = [], cap = 0, is_closed = True\<rparr>\<rparr>"
proof -
  let ?pre = "[DoStart, StopClose, LoopExit 0] :: (unit, nat) actor_action list"
  let ?post = "[DoSend (NumberMessage 1)] :: (unit, nat) actor_action list"
  let ?u = "\<lparr>actor = \<lparr>ID = ''a'', mailbox = \<lparr>buf = [], cap = 100, is_closed = False\<rparr>,
                 handlers = Map.empty, wg = 0, stop = \<lparr>buf = [], cap = 0, is_closed = True\<rparr>\<rparr>,
       loops = [Exited], log = [], stopping = 0\<rparr> :: (unit, nat) actor_sys"
  let ?s = "\<lparr>actor = \<lparr>ID = ''a'', mailbox = \<lparr>buf = [NumberMessage 1], cap = 100, is_closed = False\<rparr>,
                 handlers = Map.empty, wg = 0, stop = \<lparr>buf = [], cap = 0, is_closed = True\<rparr>\<rparr>,
       loops = [Exited], log = [], stopping = 0\<rparr> :: (unit, nat) actor_sys"
  have r1: "actor_run (?pre @ [StopReturn]) (spawn_actor ''a'') = Returns () ?u"
    by (simp add: actor_defs)
  have r2: "actor_run ?post ?u = Returns () ?s"
    by (simp add: actor_defs)
  from send_after_stop[OF r1 r2, of "StringMessage ''late''"] show ?thesis by simp
qed

section \<open>Properties of the Observable\<close>

lemmas obs_defs = NewObservable_def Subscribe_def Emit_def Close_def Receive_def make_chan_def
  chan_send_def chan_recv_def chan_close_def Let_def

lemma emit_each_result:
  "distinct obs \<Longrightarrow> \<forall>ch \<in> set obs. ch < length cs \<and> \<not> is_closed (cs ! ch) \<Longrightarrow>
   \<exists>cs'. emit_each obs data cs = Returns () cs' \<and> length cs' = length cs
     \<and> (\<forall>i < length cs. cs' ! i = (if i \<in> set obs then offer data (cs ! i) else cs ! i))"
proof (induction obs arbitrary: cs)
  case Nil
  then show ?case by simp
next
  case (Cons ob rest)
  define cs1 where "cs1 = cs[ob := offer data (cs ! ob)]"
  have ob: "ob < length cs" "\<not> is_closed (cs ! ob)" "ob \<notin> set rest" "distinct rest"
    using Cons.prems by simp_all
  have step: "emit_each (ob # rest) data cs = emit_each rest data cs1"
    using ob by (simp add: chan_send_def offer_def cs1_def)
  have pre: "\<forall>ch \<in> set rest. ch < length cs1 \<and> \<not> is_closed (cs1 ! ch)"
    using Cons.prems ob by (auto simp: cs1_def nth_list_update)
  from Cons.IH[OF ob(4) pre] obtain cs' where
    r: "emit_each rest data cs1 = Returns () cs'" and l: "length cs' = length cs1"
    and n: "\<forall>i < length cs1. cs' ! i = (if i \<in> set rest then offer data (cs1 ! i) else cs1 ! i)"
    by blast
  have "\<forall>i < length cs. cs' ! i = (if i \<in> set (ob # rest) then offer data (cs ! i) else cs ! i)"
    using n ob by (auto simp: cs1_def nth_list_update)
  with r l step show ?case by (simp add: cs1_def)
qed

lemma emit_each_never_blocks: "emit_each obs data cs \<noteq> Blocks"
  by (induction obs arbitrary: cs) (auto split: outcome.splits)

lemma close_each_result:
  "distinct obs \<Longrightarrow> \<forall>ch \<in> set obs. ch < length cs \<and> \<not> is_closed (cs ! ch) \<Longrightarrow>
   \<exists>cs'. close_each obs cs = Returns () cs' \<and> length cs' = length cs
     \<and> (\<forall>i < length cs. cs' ! i = (if i \<in> set obs then (cs ! i)\<lparr>is_closed := True\<rparr> else cs ! i))"
proof (induction obs arbitrary: cs)
  case Nil
  then show ?case by simp
next
  case (Cons ob rest)
  define cs1 where "cs1 = cs[ob := (cs ! ob)\<lparr>is_closed := True\<rparr>]"
  have ob: "ob < length cs" "\<not> is_closed (cs ! ob)" "ob \<notin> set rest" "distinct rest"
    using Cons.prems by simp_all
  have step: "close_each (ob # rest) cs = close_each rest cs1"
    using ob by (simp add: chan_close_def cs1_def)
  have pre: "\<forall>ch \<in> set rest. ch < length cs1 \<and> \<not> is_closed (cs1 ! ch)"
    using Cons.prems ob by (auto simp: cs1_def nth_list_update)
  from Cons.IH[OF ob(4) pre] obtain cs' where
    r: "close_each rest cs1 = Returns () cs'" and l: "length cs' = length cs1"
    and n: "\<forall>i < length cs1. cs' ! i = (if i \<in> set rest then (cs1 ! i)\<lparr>is_closed := True\<rparr> else cs1 ! i)"
    by blast
  have "\<forall>i < length cs. cs' ! i = (if i \<in> set (ob # rest) then (cs ! i)\<lparr>is_closed := True\<rparr> else cs ! i)"
    using n ob by (auto simp: cs1_def nth_list_update)
  with r l step show ?case by (simp add: cs1_def)
qed

lemma caps_nth: "(\<forall>c \<in> set cs. cap c = n) \<longleftrightarrow> (\<forall>i < length cs. cap (cs ! i) = n)"
  by (auto simp: all_set_conv_all_nth)

lemma new_inv: "obs_inv NewObservable"
  by (simp add: obs_inv_def NewObservable_def)

lemma emit_inv:
  assumes "obs_inv ob" and "Emit ob data = Returns () ob'"
  shows "obs_inv ob'"
proof (cases "closed ob")
  case True
  with assms show ?thesis by (simp add: Emit_def)
next
  case False
  from assms(1) have d: "distinct (observers ob)"
    and v: "\<forall>ch \<in> set (observers ob). ch < length (chans ob) \<and> \<not> is_closed (chans ob ! ch)"
    and c: "\<forall>i < length (chans ob). cap (chans ob ! i) = 10"
    by (simp_all add: obs_inv_def caps_nth)
  from emit_each_result[OF d v, of data] obtain cs' where
    r: "emit_each (observers ob) data (chans ob) = Returns () cs'"
    and l: "length cs' = length (chans ob)"
    and n: "\<forall>i < length (chans ob). cs' ! i =
        (if i \<in> set (observers ob) then offer data (chans ob ! i) else chans ob ! i)"
    by blast
  from assms(2) False r have ob': "ob' = ob\<lparr>chans := cs'\<rparr>" by (simp add: Emit_def)
  have "\<forall>ch \<in> set (observers ob). ch < length cs' \<and> \<not> is_closed (cs' ! ch)"
    using v l n by (auto simp: offer_def)
  moreover have "\<forall>i < length cs'. cap (cs' ! i) = 10"
    using c l n by (auto simp: offer_def)
  ultimately show ?thesis using d False by (simp add: ob' obs_inv_def caps_nth)
qed

lemma close_inv:
  assumes "obs_inv ob" and "Close ob = Returns () ob'"
  shows "obs_inv ob'"
proof -
  from assms(1) have d: "distinct (observers ob)"
    and v: "\<forall>ch \<in> set (observers ob). ch < length (chans ob) \<and> \<not> is_closed (chans ob ! ch)"
    and c: "\<forall>i < length (chans ob). cap (chans ob ! i) = 10"
    by (simp_all add: obs_inv_def caps_nth)
  from close_each_result[OF d v] obtain cs' where
    r: "close_each (observers ob) (chans ob) = Returns () cs'"
    and l: "length cs' = length (chans ob)"
    and n: "\<forall>i < length (chans ob). cs' ! i =
        (if i \<in> set (observers ob) then (chans ob ! i)\<lparr>is_closed := True\<rparr> else chans ob ! i)"
    by blast
  from assms(2) r have ob': "ob' = ob\<lparr>closed := True, chans := cs', observers := []\<rparr>"
    by (simp add: Close_def)
  have "\<forall>i < length cs'. cap (cs' ! i) = 10"
    using c l n by auto
  then show ?thesis by (simp add: ob' obs_inv_def caps_nth)
qed

lemma subscribe_inv:
  assumes "obs_inv ob" and "Subscribe ob = Returns r ob'"
  shows "obs_inv ob'"
proof (cases "closed ob")
  case True
  with assms show ?thesis by (simp add: Subscribe_def)
next
  case False
  with assms(2) have ob': "ob' = ob\<lparr>chans := chans ob @ [make_chan 10],
      observers := observers ob @ [length (chans ob)]\<rparr>"
    by (simp add: Subscribe_def Let_def)
  from assms(1) False show ?thesis
    by (auto simp: ob' obs_inv_def nth_append make_chan_def)
qed

lemma receive_inv:
  assumes "obs_inv ob" and "Receive ob r = Returns x ob'"
  shows "obs_inv ob'"
proof -
  from assms(2) obtain ch c where ch: "ch < length (chans ob)"
    and rc: "chan_recv (chans ob ! ch) = Returns x c"
    and ob': "ob' = ob\<lparr>chans := (chans ob)[ch := c]\<rparr>"
    by (auto simp: Receive_def split: option.splits if_splits outcome.splits)
  from rc have c: "cap c = cap (chans ob ! ch)" "is_closed c = is_closed (chans ob ! ch)"
    by (auto simp: chan_recv_def split: list.splits if_splits)
  from assms(1) have i: "\<forall>i < length (chans ob). cap (chans ob ! i) = 10"
    by (simp add: obs_inv_def caps_nth)
  have "\<forall>i < length (chans ob). cap ((chans ob)[ch := c] ! i) = 10"
    using i c ch by (auto simp: nth_list_update)
  with assms(1) c ch show ?thesis
    by (auto simp: ob' obs_inv_def caps_nth nth_list_update)
qed

lemma obs_step_inv: "obs_inv ob \<Longrightarrow> obs_step c ob = Returns () ob' \<Longrightarrow> obs_inv ob'"
  by (cases c) (auto split: outcome.splits dest: subscribe_inv emit_inv close_inv receive_inv)

lemma obs_run_inv: "obs_inv ob \<Longrightarrow> obs_run cs ob = Returns () ob' \<Longrightarrow> obs_inv ob'"
  by (induction cs arbitrary: ob) (auto split: outcome.splits dest: obs_step_inv)


lemma closed_calls:
  assumes "closed ob" and "observers ob = []"
  shows "Close ob = Returns () ob" and "Subscribe ob = Returns None ob"
    and "Emit ob data = Returns () ob"
  using assms by (simp_all add: Close_def Subscribe_def Emit_def)

lemma closed_step:
  "closed ob \<Longrightarrow> observers ob = [] \<Longrightarrow> obs_step c ob = Returns () ob' \<Longrightarrow>
   closed ob' \<and> observers ob' = []"
  by (cases c)
     (auto simp: Close_def Subscribe_def Emit_def Receive_def
       split: outcome.splits option.splits if_splits)

lemma closed_run:
  "closed ob \<Longrightarrow> observers ob = [] \<Longrightarrow> obs_run cs ob = Returns () ob' \<Longrightarrow>
   closed ob' \<and> observers ob' = []"
proof (induction cs arbitrary: ob)
  case Nil
  then show ?case by simp
next
  case (Cons c cs)
  from Cons.prems(3) obtain ob1 where s: "obs_step c ob = Returns () ob1"
    and r: "obs_run cs ob1 = Returns () ob'"
    by (auto split: outcome.splits)
  from closed_step[OF Cons.prems(1,2) s] Cons.IH[OF _ _ r] show ?case by blast
qed

text \<open>
  C4: on an open Observable in any state its calls can reach, \<open>Emit\<close> returns; every
  registered subscriber channel has capacity 10 and gets the value appended when it holds
  fewer than 10 values and is left as it was when it is full; channels and registrations are
  otherwise unchanged.  In no state at all does \<open>Emit\<close> block.
\<close>

theorem emit_lossy:
  assumes "obs_run calls NewObservable = Returns () ob" and "\<not> closed ob"
  shows "(\<exists>ob'. Emit ob data = Returns () ob'
           \<and> observers ob' = observers ob \<and> closed ob' = closed ob
           \<and> length (chans ob') = length (chans ob)
           \<and> (\<forall>ch < length (chans ob).
                 if ch \<in> set (observers ob) then
                   cap (chans ob ! ch) = 10 \<and>
                   chans ob' ! ch =
                     (if length (buf (chans ob ! ch)) < 10
                      then (chans ob ! ch)\<lparr>buf := buf (chans ob ! ch) @ [data]\<rparr>
                      else chans ob ! ch)
                 else chans ob' ! ch = chans ob ! ch))
       \<and> Emit ob0 data \<noteq> Blocks"
proof
  have inv: "obs_inv ob" using obs_run_inv[OF new_inv assms(1)] .
  then have d: "distinct (observers ob)"
    and v: "\<forall>ch \<in> set (observers ob). ch < length (chans ob) \<and> \<not> is_closed (chans ob ! ch)"
    and c: "\<forall>i < length (chans ob). cap (chans ob ! i) = 10"
    by (simp_all add: obs_inv_def caps_nth)
  from emit_each_result[OF d v, of data] obtain cs' where
    r: "emit_each (observers ob) data (chans ob) = Returns () cs'"
    and l: "length cs' = length (chans ob)"
    and n: "\<forall>i < length (chans ob). cs' ! i =
        (if i \<in> set (observers ob) then offer data (chans ob ! i) else chans ob ! i)"
    by blast
  have e: "Emit ob data = Returns () (ob\<lparr>chans := cs'\<rparr>)"
    using assms(2) r by (simp add: Emit_def)
  have "\<forall>ch < length (chans ob).
          if ch \<in> set (observers ob) then
            cap (chans ob ! ch) = 10 \<and>
            cs' ! ch =
              (if length (buf (chans ob ! ch)) < 10
               then (chans ob ! ch)\<lparr>buf := buf (chans ob ! ch) @ [data]\<rparr>
               else chans ob ! ch)
          else cs' ! ch = chans ob ! ch"
    using n c by (simp add: offer_def)
  with e l show "\<exists>ob'. Emit ob data = Returns () ob'
           \<and> observers ob' = observers ob \<and> closed ob' = closed ob
           \<and> length (chans ob') = length (chans ob)
           \<and> (\<forall>ch < length (chans ob).
                 if ch \<in> set (observers ob) then
                   cap (chans ob ! ch) = 10 \<and>
                   chans ob' ! ch =
                     (if length (buf (chans ob ! ch)) < 10
                      then (chans ob ! ch)\<lparr>buf := buf (chans ob ! ch) @ [data]\<rparr>
                      else chans ob ! ch)
                 else chans ob' ! ch = chans ob ! ch)"
    by simp
next
  show "Emit ob0 data \<noteq> Blocks"
    using emit_each_never_blocks[of "observers ob0" data "chans ob0"]
    by (simp add: Emit_def split: outcome.splits)
qed

theorem emit_lossy_witness:
  "obs_run [CallSubscribe, CallEmit 0, CallEmit 1, CallEmit 2, CallEmit 3, CallEmit 4, CallEmit 5,
            CallEmit 6, CallEmit 7, CallEmit 8, CallEmit 9, CallSubscribe] NewObservable
     = Returns ()
        \<lparr>chans = [\<lparr>buf = [0, 1, 2, 3, 4, 5, 6, 7, 8, 9 :: nat], cap = 10, is_closed = False\<rparr>,
                  \<lparr>buf = [], cap = 10, is_closed = False\<rparr>],
         observers = [0, 1], closed = False\<rparr>
   \<and> Emit \<lparr>chans = [\<lparr>buf = [0, 1, 2, 3, 4, 5, 6, 7, 8, 9 :: nat], cap = 10, is_closed = False\<rparr>,
                     \<lparr>buf = [], cap = 10, is_closed = False\<rparr>],
            observers = [0, 1], closed = False\<rparr> 99
     = Returns ()
        \<lparr>chans = [\<lparr>buf = [0, 1, 2, 3, 4, 5, 6, 7, 8, 9], cap = 10, is_closed = False\<rparr>,
                  \<lparr>buf = [99], cap = 10, is_closed = False\<rparr>],
         observers = [0, 1], closed = False\<rparr>"
proof -
  let ?calls = "[CallSubscribe, CallEmit 0, CallEmit 1, CallEmit 2, CallEmit 3, CallEmit 4, CallEmit 5,
            CallEmit 6, CallEmit 7, CallEmit 8, CallEmit 9, CallSubscribe] :: nat obs_call list"
  let ?ob = "\<lparr>chans = [\<lparr>buf = [0, 1, 2, 3, 4, 5, 6, 7, 8, 9 :: nat], cap = 10, is_closed = False\<rparr>,
                  \<lparr>buf = [], cap = 10, is_closed = False\<rparr>],
         observers = [0, 1], closed = False\<rparr>"
  have r: "obs_run ?calls NewObservable = Returns () ?ob"
    by (simp add: obs_defs)
  have n: "\<not> closed ?ob" by simp
  from emit_lossy[OF r n, of 99] r show ?thesis
    by (simp add: obs_defs)
qed

text \<open>
  C6: in any reachable state \<open>Close\<close> returns with the Observable closed and no
  observer registered; in every state reached afterwards another \<open>Close\<close> returns
  without panic and changes nothing, \<open>Subscribe\<close> returns \<open>nil\<close> and registers
  nothing, and \<open>Emit\<close> returns and delivers nothing.
\<close>

theorem close_idempotent:
  assumes "obs_run calls NewObservable = Returns () ob"
  shows "\<exists>ob1. Close ob = Returns () ob1 \<and> closed ob1 \<and> observers ob1 = []
           \<and> (\<forall>later ob2. obs_run later ob1 = Returns () ob2 \<longrightarrow>
                 Close ob2 = Returns () ob2
                 \<and> Subscribe ob2 = Returns None ob2
                 \<and> Emit ob2 data = Returns () ob2
                 \<and> observers ob2 = [])"
proof -
  have inv: "obs_inv ob" using obs_run_inv[OF new_inv assms(1)] .
  then have d: "distinct (observers ob)"
    and v: "\<forall>ch \<in> set (observers ob). ch < length (chans ob) \<and> \<not> is_closed (chans ob ! ch)"
    by (simp_all add: obs_inv_def)
  from close_each_result[OF d v] obtain cs' where
    r: "close_each (observers ob) (chans ob) = Returns () cs'"
    by blast
  define ob1 where "ob1 = ob\<lparr>closed := True, chans := cs', observers := []\<rparr>"
  have c: "Close ob = Returns () ob1"
    using r by (simp add: Close_def ob1_def)
  have 1: "closed ob1" "observers ob1 = []" by (simp_all add: ob1_def)
  have "Close ob2 = Returns () ob2 \<and> Subscribe ob2 = Returns None ob2
        \<and> Emit ob2 data = Returns () ob2 \<and> observers ob2 = []"
    if "obs_run later ob1 = Returns () ob2" for later ob2
    using closed_run[OF 1 that] closed_calls[of ob2] by simp
  with c 1 show ?thesis by blast
qed

theorem close_idempotent_witness:
  "obs_run [CallSubscribe, CallEmit (5::nat), CallSubscribe] NewObservable
     = Returns ()
        \<lparr>chans = [\<lparr>buf = [5], cap = 10, is_closed = False\<rparr>, \<lparr>buf = [], cap = 10, is_closed = False\<rparr>],
         observers = [0, 1], closed = False\<rparr>
   \<and> Close \<lparr>chans = [\<lparr>buf = [5::nat], cap = 10, is_closed = False\<rparr>, \<lparr>buf = [], cap = 10, is_closed = False\<rparr>],
         observers = [0, 1], closed = False\<rparr>
     = Returns ()
        \<lparr>chans = [\<lparr>buf = [5], cap = 10, is_closed = True\<rparr>, \<lparr>buf = [], cap = 10, is_closed = True\<rparr>],
         observers = [], closed = True\<rparr>
   \<and> Close \<lparr>chans = [\<lparr>buf = [5::nat], cap = 10, is_closed = True\<rparr>, \<lparr>buf = [], cap = 10, is_closed = True\<rparr>],
         observers = [], closed = True\<rparr>
     = Returns ()
        \<lparr>chans = [\<lparr>buf = [5], cap = 10, is_closed = True\<rparr>, \<lparr>buf = [], cap = 10, is_closed = True\<rparr>],
         observers = [], closed = True\<rparr>
   \<and> Subscribe \<lparr>chans = [\<lparr>buf = [5::nat], cap = 10, is_closed = True\<rparr>, \<lparr>buf = [], cap = 10, is_closed = True\<rparr>],
         observers = [], closed = True\<rparr>
     = Returns None
        \<lparr>chans = [\<lparr>buf = [5], cap = 10, is_closed = True\<rparr>, \<lparr>buf = [], cap = 10, is_closed = True\<rparr>],
         observers = [], closed = True\<rparr>
   \<and> obs_run [CallReceive (Some 0), CallEmit 7, CallSubscribe, CallClose]
        \<lparr>chans = [\<lparr>buf = [5::nat], cap = 10, is_closed = True\<rparr>, \<lparr>buf = [], cap = 10, is_closed = True\<rparr>],
         observers = [], closed = True\<rparr>
     = Returns ()
        \<lparr>chans = [\<lparr>buf = [], cap = 10, is_closed = True\<rparr>, \<lparr>buf = [], cap = 10, is_closed = True\<rparr>],
         observers = [], closed = True\<rparr>"
proof -
  let ?calls = "[CallSubscribe, CallEmit (5::nat), CallSubscribe]"
  let ?ob = "\<lparr>chans = [\<lparr>buf = [5::nat], cap = 10, is_closed = False\<rparr>, \<lparr>buf = [], cap = 10, is_closed = False\<rparr>],
         observers = [0, 1], closed = False\<rparr>"
  have r: "obs_run ?calls NewObservable = Returns () ?ob"
    by (simp add: obs_defs)
  from close_idempotent[OF r, of 7] r show ?thesis
    by (simp add: obs_defs)
qed

section \<open>Properties of the pipeline stages\<close>

lemma pipe_run_snoc:
  "pipe_run fn (as @ [a]) s = Returns () s' \<longleftrightarrow>
     (\<exists>s1. pipe_run fn as s = Returns () s1 \<and> pipe_step fn a s1 = Returns () s')"
  by (induction as arbitrary: s) (auto split: outcome.splits)

lemma pipe_invD:
  assumes "pipe_inv fn ns s"
  shows "\<exists>passed. ns = passed @ nums s \<and> collected s @ in_flight (sq_pc s) = map fn passed"
    and "buf (gen_out s) = []" and "buf (sq_out s) = []"
    and "is_closed (gen_out s) = gen_done s"
    and "gen_done s \<longrightarrow> nums s = []"
    and "is_closed (sq_out s) = (sq_pc s = Finished)"
    and "sq_pc s = Finished \<longrightarrow> gen_done s"
    and "consumer_done s \<longrightarrow> sq_pc s = Finished"
  using assms unfolding pipe_inv_def by simp_all

lemma pipe_invI:
  assumes "\<exists>passed. ns = passed @ nums s \<and> collected s @ in_flight (sq_pc s) = map fn passed"
    and "buf (gen_out s) = []" and "buf (sq_out s) = []"
    and "is_closed (gen_out s) = gen_done s"
    and "gen_done s \<longrightarrow> nums s = []"
    and "is_closed (sq_out s) = (sq_pc s = Finished)"
    and "sq_pc s = Finished \<longrightarrow> gen_done s"
    and "consumer_done s \<longrightarrow> sq_pc s = Finished"
  shows "pipe_inv fn ns s"
  using assms unfolding pipe_inv_def by simp

lemma pipe_start_inv: "pipe_inv fn ns (pipeline_start ns)"
  by (rule pipe_invI) (simp_all add: pipeline_start_def make_chan_def)

lemma GenSend_elim:
  assumes "pipe_step fn GenSend s = Returns () s'"
  obtains n rest where "nums s = n # rest" and "sq_pc s = Ranging" and "\<not> gen_done s"
    and "s' = s\<lparr>nums := rest, sq_pc := Sending (fn n)\<rparr>"
  using assms by (cases "nums s") (simp_all split: if_splits)

lemma GenClose_elim:
  assumes "pipe_step fn GenClose s = Returns () s'"
  shows "nums s = [] \<and> \<not> gen_done s
       \<and> s' = s\<lparr>gen_out := (gen_out s)\<lparr>is_closed := True\<rparr>, gen_done := True\<rparr>"
  using assms by (simp add: chan_close_def split: if_splits)

lemma SqEnd_elim:
  assumes "pipe_step fn SqEnd s = Returns () s'"
  shows "sq_pc s = Ranging \<and> is_closed (gen_out s)
       \<and> s' = s\<lparr>sq_out := (sq_out s)\<lparr>is_closed := True\<rparr>, sq_pc := Finished\<rparr>"
  using assms
  by (cases "buf (gen_out s)")
     (simp_all add: chan_close_def chan_recv_def split: if_splits)

lemma SqSend_elim:
  assumes "pipe_step fn SqSend s = Returns () s'"
  obtains v where "sq_pc s = Sending v" and "\<not> consumer_done s"
    and "s' = s\<lparr>collected := collected s @ [v], sq_pc := Ranging\<rparr>"
  using assms by (cases "sq_pc s") (simp_all split: if_splits)

lemma ConsumerEnd_elim:
  assumes "pipe_step fn ConsumerEnd s = Returns () s'"
  shows "\<not> consumer_done s \<and> is_closed (sq_out s) \<and> s' = s\<lparr>consumer_done := True\<rparr>"
  using assms
  by (cases "buf (sq_out s)")
     (simp_all add: chan_recv_def split: if_splits)

lemma pipe_step_inv:
  assumes "pipe_inv fn ns s" and "pipe_step fn a s = Returns () s'"
  shows "pipe_inv fn ns s'"
proof (cases a)
  note d = pipe_invD[OF assms(1)]
  case GenSend
  with assms(2) have st: "pipe_step fn GenSend s = Returns () s'" by simp
  from st obtain n rest where n: "nums s = n # rest" and pc: "sq_pc s = Ranging"
    and s': "s' = s\<lparr>nums := rest, sq_pc := Sending (fn n)\<rparr>"
    by (rule GenSend_elim)
  from d(1) obtain passed where p: "ns = passed @ nums s"
    "collected s @ in_flight (sq_pc s) = map fn passed"
    by blast
  have "ns = (passed @ [n]) @ rest \<and> collected s @ [fn n] = map fn (passed @ [n])"
    using p n pc by simp
  then have q: "\<exists>q. ns = q @ rest \<and> collected s @ [fn n] = map fn q" by blast
  show ?thesis unfolding s'
    by (rule pipe_invI) (use d q n pc in simp_all)
next
  note d = pipe_invD[OF assms(1)]
  case GenClose
  with assms(2) have "pipe_step fn GenClose s = Returns () s'" by simp
  from GenClose_elim[OF this] have e: "nums s = []" "\<not> gen_done s"
    "s' = s\<lparr>gen_out := (gen_out s)\<lparr>is_closed := True\<rparr>, gen_done := True\<rparr>"
    by simp_all
  show ?thesis unfolding e(3)
    by (rule pipe_invI) (use d e(1,2) in simp_all)
next
  note d = pipe_invD[OF assms(1)]
  case SqEnd
  with assms(2) have "pipe_step fn SqEnd s = Returns () s'" by simp
  from SqEnd_elim[OF this] have e: "sq_pc s = Ranging" "is_closed (gen_out s)"
    "s' = s\<lparr>sq_out := (sq_out s)\<lparr>is_closed := True\<rparr>, sq_pc := Finished\<rparr>"
    by simp_all
  show ?thesis unfolding e(3)
    by (rule pipe_invI) (use d e(1,2) in simp_all)
next
  note d = pipe_invD[OF assms(1)]
  case SqSend
  with assms(2) have st: "pipe_step fn SqSend s = Returns () s'" by simp
  from st obtain v where e: "sq_pc s = Sending v" "\<not> consumer_done s"
    "s' = s\<lparr>collected := collected s @ [v], sq_pc := Ranging\<rparr>"
    by (rule SqSend_elim)
  show ?thesis unfolding e(3)
    by (rule pipe_invI) (use d e(1,2) in simp_all)
next
  note d = pipe_invD[OF assms(1)]
  case ConsumerEnd
  with assms(2) have "pipe_step fn ConsumerEnd s = Returns () s'" by simp
  from ConsumerEnd_elim[OF this] have e: "\<not> consumer_done s" "is_closed (sq_out s)"
    "s' = s\<lparr>consumer_done := True\<rparr>"
    by simp_all
  show ?thesis unfolding e(3)
    by (rule pipe_invI) (use d e(1,2) in simp_all)
qed

lemma pipe_step_left:
  assumes "pipe_step fn a s = Returns () s'"
  shows "Suc (pipe_left s') = pipe_left s"
proof (cases a)
  case GenSend
  with assms have st: "pipe_step fn GenSend s = Returns () s'" by simp
  from st obtain n rest where "nums s = n # rest" "sq_pc s = Ranging"
    "s' = s\<lparr>nums := rest, sq_pc := Sending (fn n)\<rparr>"
    by (rule GenSend_elim)
  then show ?thesis by (simp add: pipe_left_def)
next
  case GenClose
  with assms have "pipe_step fn GenClose s = Returns () s'" by simp
  from GenClose_elim[OF this] have "nums s = []" "\<not> gen_done s"
    "s' = s\<lparr>gen_out := (gen_out s)\<lparr>is_closed := True\<rparr>, gen_done := True\<rparr>"
    by simp_all
  then show ?thesis by (simp add: pipe_left_def)
next
  case SqEnd
  with assms have "pipe_step fn SqEnd s = Returns () s'" by simp
  from SqEnd_elim[OF this] have "sq_pc s = Ranging"
    "s' = s\<lparr>sq_out := (sq_out s)\<lparr>is_closed := True\<rparr>, sq_pc := Finished\<rparr>"
    by simp_all
  then show ?thesis by (simp add: pipe_left_def)
next
  case SqSend
  with assms have st: "pipe_step fn SqSend s = Returns () s'" by simp
  from st obtain v where "sq_pc s = Sending v" "\<not> consumer_done s"
    "s' = s\<lparr>collected := collected s @ [v], sq_pc := Ranging\<rparr>"
    by (rule SqSend_elim)
  then show ?thesis by (simp add: pipe_left_def)
next
  case ConsumerEnd
  with assms have "pipe_step fn ConsumerEnd s = Returns () s'" by simp
  from ConsumerEnd_elim[OF this] have "\<not> consumer_done s" "s' = s\<lparr>consumer_done := True\<rparr>"
    by simp_all
  then show ?thesis by (simp add: pipe_left_def)
qed

lemma pipe_step_safe:
  assumes "pipe_inv fn ns s"
  shows "\<not> panicked (pipe_step fn a s)"
proof -
  note f = pipe_invD(4,6,7)[OF assms]
  show ?thesis
  proof (cases a)
    case GenSend
    with f show ?thesis by (cases "nums s") simp_all
  next
    case GenClose
    with f show ?thesis by (simp add: chan_close_def)
  next
    case SqEnd
    with f show ?thesis
      by (cases "buf (gen_out s)") (simp_all add: chan_close_def chan_recv_def)
  next
    case SqSend
    with f show ?thesis by (cases "sq_pc s") simp_all
  next
    case ConsumerEnd
    with f show ?thesis
      by (cases "buf (sq_out s)") (simp_all add: chan_recv_def)
  qed
qed

lemma pipe_run_inv:
  "pipe_run fn sched (pipeline_start ns) = Returns () s \<Longrightarrow>
     pipe_inv fn ns s \<and> pipe_left s + length sched = 2 * length ns + 3"
proof (induction sched arbitrary: s rule: rev_induct)
  case Nil
  then show ?case
    using pipe_start_inv[of fn ns] by (auto simp: pipe_left_def pipeline_start_def)
next
  case (snoc a as)
  from snoc.prems obtain s1 where r: "pipe_run fn as (pipeline_start ns) = Returns () s1"
    and st: "pipe_step fn a s1 = Returns () s"
    by (auto simp: pipe_run_snoc)
  from snoc.IH[OF r] pipe_step_inv[OF _ st] pipe_step_left[OF st] show ?case
    by auto
qed

lemma pipe_run_safe:
  "pipe_inv fn ns s \<Longrightarrow> \<not> panicked (pipe_run fn sched s)"
proof (induction sched arbitrary: s)
  case Nil
  then show ?case by simp
next
  case (Cons a as)
  show ?case
  proof (cases "pipe_step fn a s")
    case (Returns u s1)
    with Cons.IH[OF pipe_step_inv[OF Cons.prems]] show ?thesis by simp
  next
    case Blocks
    then show ?thesis by simp
  next
    case (Panics s1)
    with pipe_step_safe[OF Cons.prems, of a] show ?thesis by simp
  qed
qed

lemma pipe_progress:
  assumes "pipe_inv fn ns s" and "\<not> consumer_done s"
  shows "\<exists>a. returned (pipe_step fn a s)"
proof (cases "sq_pc s")
  note d = pipe_invD[OF assms(1)]
  case Ranging
  show ?thesis
  proof (cases "nums s")
    case Nil
    show ?thesis
    proof (cases "gen_done s")
      case True
      with d Ranging have "returned (pipe_step fn SqEnd s)"
        by (simp add: chan_recv_def chan_close_def)
      then show ?thesis ..
    next
      case False
      with d Nil have "returned (pipe_step fn GenClose s)"
        by (simp add: chan_close_def)
      then show ?thesis ..
    qed
  next
    case (Cons n rest)
    with d Ranging have "returned (pipe_step fn GenSend s)"
      by simp
    then show ?thesis ..
  qed
next
  note d = pipe_invD[OF assms(1)]
  case (Sending v)
  with d assms(2) have "returned (pipe_step fn SqSend s)"
    by simp
  then show ?thesis ..
next
  note d = pipe_invD[OF assms(1)]
  case Finished
  with d assms(2) have "returned (pipe_step fn ConsumerEnd s)"
    by (simp add: chan_recv_def)
  then show ?thesis ..
qed

text \<open>
  C8: in every state a schedule reaches from \<open>square(generate(ns...))\<close> with a reading
  consumer, the values \<open>generate\<close> has sent are a prefix of its arguments, and the
  results received so far, then the one being sent, are \<open>fn\<close> of exactly these values
  in order; \<open>generate\<close> closes its stream only after the last value; the stage closes
  its output only after its input was closed and every result was delivered, so on closure
  the consumer holds \<open>map fn ns\<close>.  No schedule panics, every schedule has at most
  \<open>2 * length ns + 3\<close> steps, and a step is possible until the consumer has seen
  the closure.  For \<open>ns = [1, 2, 3]\<close> and \<open>n * n\<close> the consumer ends with
  \<open>[1, 4, 9]\<close>.
\<close>

theorem generate_transform:
  assumes "pipe_run fn sched (pipeline_start ns) = Returns () s"
  shows "(\<exists>passed. ns = passed @ nums s \<and> collected s @ in_flight (sq_pc s) = map fn passed)
       \<and> (is_closed (gen_out s) \<longrightarrow> nums s = [])
       \<and> (is_closed (sq_out s) \<longrightarrow> is_closed (gen_out s) \<and> collected s = map fn ns)
       \<and> (consumer_done s \<longrightarrow> is_closed (sq_out s))
       \<and> (\<not> consumer_done s \<longrightarrow> (\<exists>a. returned (pipe_step fn a s)))
       \<and> length sched \<le> 2 * length ns + 3
       \<and> \<not> panicked (pipe_run fn later s)
       \<and> (consumer_done s \<and> fn = sq \<and> ns = [1, 2, 3] \<longrightarrow> collected s = [1, 4, 9])"
proof -
  from pipe_run_inv[OF assms] have inv: "pipe_inv fn ns s"
    and left: "pipe_left s + length sched = 2 * length ns + 3"
    by simp_all
  note d = pipe_invD[OF inv]
  from d(1) obtain passed where p: "ns = passed @ nums s"
    "collected s @ in_flight (sq_pc s) = map fn passed"
    by blast
  have closed: "collected s = map fn ns" if "is_closed (sq_out s)"
    using that d(4-7) p by simp
  have 1: "\<exists>passed. ns = passed @ nums s \<and> collected s @ in_flight (sq_pc s) = map fn passed"
    using p by blast
  have 2: "is_closed (gen_out s) \<longrightarrow> nums s = []"
    using d(4,5) by simp
  have 3: "is_closed (sq_out s) \<longrightarrow> is_closed (gen_out s) \<and> collected s = map fn ns"
    using d(4,6,7) closed by simp
  have 4: "consumer_done s \<longrightarrow> is_closed (sq_out s)"
    using d(6,8) by simp
  have 5: "\<not> consumer_done s \<longrightarrow> (\<exists>a. returned (pipe_step fn a s))"
    using pipe_progress[OF inv] by blast
  have 6: "length sched \<le> 2 * length ns + 3"
    using left by simp
  have 7: "\<not> panicked (pipe_run fn later s)"
    using pipe_run_safe[OF inv] .
  have 8: "consumer_done s \<and> fn = sq \<and> ns = [1, 2, 3] \<longrightarrow> collected s = [1, 4, 9]"
  proof
    assume a: "consumer_done s \<and> fn = sq \<and> ns = [1, 2, 3]"
    with 3 4 have "collected s = map sq [1, 2, 3]" by simp
    then show "collected s = [1, 4, 9]" by (simp add: sq_def)
  qed
  show ?thesis by (intro conjI 1 2 3 4 5 6 7 8)
qed


theorem generate_transform_witness:
  "pipe_run sq [GenSend, SqSend, GenSend, SqSend, GenSend, GenClose, SqSend, SqEnd, ConsumerEnd]
      (pipeline_start [1, 2, 3])
     = Returns ()
        \<lparr>nums = [], gen_done = True, gen_out = \<lparr>buf = [], cap = 0, is_closed = True\<rparr>,
         sq_pc = Finished, sq_out = \<lparr>buf = [], cap = 0, is_closed = True\<rparr>,
         collected = [1, 4, 9], consumer_done = True\<rparr>
   \<and> length [GenSend, SqSend, GenSend, SqSend, GenSend, GenClose, SqSend, SqEnd, ConsumerEnd]
       \<le> 2 * length [1, 2, 3 :: go_int] + 3"
proof -
  let ?sched = "[GenSend, SqSend, GenSend, SqSend, GenSend, GenClose, SqSend, SqEnd, ConsumerEnd]"
  let ?fin = "\<lparr>nums = [], gen_done = True, gen_out = \<lparr>buf = [], cap = 0, is_closed = True\<rparr>,
         sq_pc = Finished, sq_out = \<lparr>buf = [], cap = 0, is_closed = True\<rparr>,
         collected = [1, 4, 9], consumer_done = True\<rparr>"
  have r: "pipe_run sq ?sched (pipeline_start [1, 2, 3]) = Returns () ?fin"
    by (simp add: pipeline_start_def make_chan_def chan_close_def chan_recv_def sq_def)
  from generate_transform[OF r, of "[]"] r show ?thesis
    by simp
qed

section \<open>Properties of merge\<close>

lemma sum_list_map_update:
  fixes f :: "'b \<Rightarrow> 'c::comm_monoid_add"
  shows "i < length xs \<Longrightarrow>
    sum_list (map f (xs[i := y])) + f (xs ! i) = sum_list (map f xs) + f y"
proof (induction xs arbitrary: i)
  case Nil
  then show ?case by simp
next
  case (Cons x xs)
  show ?case
  proof (cases i)
    case 0
    then show ?thesis by (simp add: ac_simps)
  next
    case (Suc j)
    with Cons.prems have "j < length xs" by simp
    from Cons.IH[OF this] Suc show ?thesis
      by (simp add: add.assoc)
  qed
qed

lemma list_all_update:
  "list_all P xs \<Longrightarrow> P y \<Longrightarrow> list_all P (xs[i := y])"
  using set_update_subset_insert[of xs i y] by (auto simp: list_all_iff)

lemma list_all_nth: "list_all P xs \<Longrightarrow> i < length xs \<Longrightarrow> P (xs ! i)"
  by (simp add: list_all_length)

lemma merge_run_snoc:
  "merge_run (as @ [a]) s = Returns () s' \<longleftrightarrow>
     (\<exists>s1. merge_run as s = Returns () s1 \<and> merge_step a s1 = Returns () s')"
  by (induction as arbitrary: s) (auto split: outcome.splits)

lemma merge_invD:
  assumes "merge_inv every s"
  shows "list_all lane_ok (lanes s)"
    and "wg_count s = int (sum_list (map active (lanes s)))"
    and "buf (out s) = []"
    and "closer_done s = is_closed (out s)"
    and "closer_done s \<longrightarrow> wg_count s = 0"
    and "reader_done s \<longrightarrow> closer_done s"
    and "mset (received s) + sum_list (map lane_content (lanes s)) = every"
  using assms unfolding merge_inv_def by blast+

lemma merge_invI:
  assumes "list_all lane_ok (lanes s)"
    and "wg_count s = int (sum_list (map active (lanes s)))"
    and "buf (out s) = []"
    and "closer_done s = is_closed (out s)"
    and "closer_done s \<longrightarrow> wg_count s = 0"
    and "reader_done s \<longrightarrow> closer_done s"
    and "mset (received s) + sum_list (map lane_content (lanes s)) = every"
  shows "merge_inv every s"
  using assms unfolding merge_inv_def by blast

text \<open>What each step does, read off the definition.\<close>

lemma Produce_elim:
  assumes "merge_step (Produce i) s = Returns () s'"
  obtains x xs where "i < length (lanes s)" and "todo (lanes s ! i) = x # xs"
    and "\<not> is_closed (inp (lanes s ! i))"
    and "s' = set_lane s i ((lanes s ! i)\<lparr>todo := xs,
            inp := (inp (lanes s ! i))\<lparr>buf := buf (inp (lanes s ! i)) @ [x]\<rparr>\<rparr>)"
  using assms
  by (cases "todo (lanes s ! i)") (simp_all add: Let_def chan_send_def split: if_splits)

lemma Handoff_elim:
  assumes "merge_step (Handoff i) s = Returns () s'"
  obtains x xs where "i < length (lanes s)" and "todo (lanes s ! i) = x # xs"
    and "\<not> is_closed (inp (lanes s ! i))" and "buf (inp (lanes s ! i)) = []"
    and "fwd (lanes s ! i) = Ranging"
    and "s' = set_lane s i ((lanes s ! i)\<lparr>todo := xs, fwd := Sending x\<rparr>)"
  using assms
  by (cases "todo (lanes s ! i)") (simp_all add: Let_def split: if_splits)

lemma InClose_elim:
  assumes "merge_step (InClose i) s = Returns () s'"
  shows "i < length (lanes s) \<and> todo (lanes s ! i) = [] \<and> \<not> is_closed (inp (lanes s ! i))
       \<and> s' = set_lane s i ((lanes s ! i)\<lparr>inp := (inp (lanes s ! i))\<lparr>is_closed := True\<rparr>\<rparr>)"
  using assms by (simp add: Let_def chan_close_def split: if_splits)

lemma FwdRecv_elim:
  assumes "merge_step (FwdRecv i) s = Returns () s'"
  obtains (some) x rest where "i < length (lanes s)" and "fwd (lanes s ! i) = Ranging"
      and "buf (inp (lanes s ! i)) = x # rest"
      and "s' = set_lane s i ((lanes s ! i)\<lparr>inp := (inp (lanes s ! i))\<lparr>buf := rest\<rparr>,
              fwd := Sending x\<rparr>)"
    | (none) "i < length (lanes s)" and "fwd (lanes s ! i) = Ranging"
      and "buf (inp (lanes s ! i)) = []" and "is_closed (inp (lanes s ! i))"
      and "0 < wg_count s"
      and "s' = (set_lane s i ((lanes s ! i)\<lparr>fwd := Finished\<rparr>))\<lparr>wg_count := wg_count s - 1\<rparr>"
  using assms
  by (cases "buf (inp (lanes s ! i))")
     (simp_all add: Let_def chan_recv_def split: if_splits)

lemma FwdSend_elim:
  assumes "merge_step (FwdSend i) s = Returns () s'"
  obtains x where "i < length (lanes s)" and "fwd (lanes s ! i) = Sending x"
    and "\<not> is_closed (out s)" and "\<not> reader_done s"
    and "s' = (set_lane s i ((lanes s ! i)\<lparr>fwd := Ranging\<rparr>))\<lparr>received := received s @ [x]\<rparr>"
  using assms
  by (cases "fwd (lanes s ! i)") (simp_all add: Let_def split: if_splits)

lemma WaitClose_elim:
  assumes "merge_step WaitClose s = Returns () s'"
  shows "\<not> closer_done s \<and> wg_count s = 0 \<and> \<not> is_closed (out s)
       \<and> s' = s\<lparr>out := (out s)\<lparr>is_closed := True\<rparr>, closer_done := True\<rparr>"
  using assms by (simp add: chan_close_def split: if_splits)

lemma ReaderEnd_elim:
  assumes "merge_step ReaderEnd s = Returns () s'"
  shows "\<not> reader_done s \<and> is_closed (out s) \<and> s' = s\<lparr>reader_done := True\<rparr>"
  using assms
  by (cases "buf (out s)") (simp_all add: chan_recv_def split: if_splits)


lemma lane_update_inv:
  assumes inv: "merge_inv every s" and i: "i < length (lanes s)"
    and ok: "lane_ok l'" and act: "active l' = active (lanes s ! i)"
    and con: "lane_content l' = lane_content (lanes s ! i)"
  shows "merge_inv every (set_lane s i l')"
proof (rule merge_invI)
  note d = merge_invD[OF inv]
  show "list_all lane_ok (lanes (set_lane s i l'))"
    using list_all_update[OF d(1) ok] by (simp add: set_lane_def)
  have "sum_list (map active ((lanes s)[i := l'])) + active (lanes s ! i)
      = sum_list (map active (lanes s)) + active l'"
    by (rule sum_list_map_update[OF i])
  with act have "sum_list (map active ((lanes s)[i := l'])) = sum_list (map active (lanes s))"
    by simp
  with d(2) show "wg_count (set_lane s i l') = int (sum_list (map active (lanes (set_lane s i l'))))"
    by (simp add: set_lane_def)
  have "sum_list (map lane_content ((lanes s)[i := l'])) + lane_content (lanes s ! i)
      = sum_list (map lane_content (lanes s)) + lane_content l'"
    by (rule sum_list_map_update[OF i])
  with con have "sum_list (map lane_content ((lanes s)[i := l'])) = sum_list (map lane_content (lanes s))"
    by simp
  with d(7) show "mset (received (set_lane s i l'))
      + sum_list (map lane_content (lanes (set_lane s i l'))) = every"
    by (simp add: set_lane_def)
  show "buf (out (set_lane s i l')) = []" using d(3) by (simp add: set_lane_def)
  show "closer_done (set_lane s i l') = is_closed (out (set_lane s i l'))"
    using d(4) by (simp add: set_lane_def)
  show "closer_done (set_lane s i l') \<longrightarrow> wg_count (set_lane s i l') = 0"
    using d(5) by (simp add: set_lane_def)
  show "reader_done (set_lane s i l') \<longrightarrow> closer_done (set_lane s i l')"
    using d(6) by (simp add: set_lane_def)
qed

lemma active_le_sum: "i < length ls \<Longrightarrow> active (ls ! i) \<le> sum_list (map active ls)"
proof (induction ls arbitrary: i)
  case Nil
  then show ?case by simp
next
  case (Cons l ls)
  show ?case
  proof (cases i)
    case 0
    then show ?thesis by simp
  next
    case (Suc j)
    with Cons.prems have "j < length ls" by simp
    from Cons.IH[OF this] Suc show ?thesis by simp
  qed
qed

lemma all_finished_sum: "sum_list (map active ls) = 0 \<longleftrightarrow> (\<forall>l \<in> set ls. fwd l = Finished)"
  by (induction ls) (auto simp: active_def)

lemma recv_none_inv:
  assumes inv: "merge_inv every s" and i: "i < length (lanes s)"
    and r: "fwd (lanes s ! i) = Ranging" and b: "buf (inp (lanes s ! i)) = []"
    and c: "is_closed (inp (lanes s ! i))" and w: "0 < wg_count s"
  shows "merge_inv every ((set_lane s i ((lanes s ! i)\<lparr>fwd := Finished\<rparr>))\<lparr>wg_count := wg_count s - 1\<rparr>)"
proof (rule merge_invI)
  note d = merge_invD[OF inv]
  let ?l = "lanes s ! i"
  let ?l' = "?l\<lparr>fwd := Finished\<rparr>"
  let ?s' = "(set_lane s i ?l')\<lparr>wg_count := wg_count s - 1\<rparr>"
  have okl: "lane_ok ?l" using list_all_nth[OF d(1) i] .
  have ok: "lane_ok ?l'" using okl b c by (simp add: lane_ok_def)
  show "list_all lane_ok (lanes ?s')"
    using list_all_update[OF d(1) ok] by (simp add: set_lane_def)
  have "sum_list (map active ((lanes s)[i := ?l'])) + active ?l
      = sum_list (map active (lanes s)) + active ?l'"
    by (rule sum_list_map_update[OF i])
  then have "sum_list (map active ((lanes s)[i := ?l'])) + 1 = sum_list (map active (lanes s))"
    using r by (simp add: active_def)
  with d(2) show "wg_count ?s' = int (sum_list (map active (lanes ?s')))"
    by (simp add: set_lane_def)
  have "sum_list (map lane_content ((lanes s)[i := ?l'])) + lane_content ?l
      = sum_list (map lane_content (lanes s)) + lane_content ?l'"
    by (rule sum_list_map_update[OF i])
  moreover have "lane_content ?l' = lane_content ?l"
    using r by (simp add: lane_content_def)
  ultimately have "sum_list (map lane_content ((lanes s)[i := ?l'])) = sum_list (map lane_content (lanes s))"
    by simp
  with d(7) show "mset (received ?s') + sum_list (map lane_content (lanes ?s')) = every"
    by (simp add: set_lane_def)
  show "buf (out ?s') = []" using d(3) by (simp add: set_lane_def)
  show "closer_done ?s' = is_closed (out ?s')" using d(4) by (simp add: set_lane_def)
  show "closer_done ?s' \<longrightarrow> wg_count ?s' = 0" using d(5) w by (simp add: set_lane_def)
  show "reader_done ?s' \<longrightarrow> closer_done ?s'" using d(6) by (simp add: set_lane_def)
qed

lemma send_inv:
  assumes inv: "merge_inv every s" and i: "i < length (lanes s)"
    and f: "fwd (lanes s ! i) = Sending x"
  shows "merge_inv every ((set_lane s i ((lanes s ! i)\<lparr>fwd := Ranging\<rparr>))\<lparr>received := received s @ [x]\<rparr>)"
proof (rule merge_invI)
  note d = merge_invD[OF inv]
  let ?l = "lanes s ! i"
  let ?l' = "?l\<lparr>fwd := Ranging\<rparr>"
  let ?s' = "(set_lane s i ?l')\<lparr>received := received s @ [x]\<rparr>"
  have okl: "lane_ok ?l" using list_all_nth[OF d(1) i] .
  have ok: "lane_ok ?l'" using okl by (simp add: lane_ok_def)
  show "list_all lane_ok (lanes ?s')"
    using list_all_update[OF d(1) ok] by (simp add: set_lane_def)
  have "sum_list (map active ((lanes s)[i := ?l'])) + active ?l
      = sum_list (map active (lanes s)) + active ?l'"
    by (rule sum_list_map_update[OF i])
  then have "sum_list (map active ((lanes s)[i := ?l'])) = sum_list (map active (lanes s))"
    using f by (simp add: active_def)
  with d(2) show "wg_count ?s' = int (sum_list (map active (lanes ?s')))"
    by (simp add: set_lane_def)
  have "sum_list (map lane_content ((lanes s)[i := ?l'])) + lane_content ?l
      = sum_list (map lane_content (lanes s)) + lane_content ?l'"
    by (rule sum_list_map_update[OF i])
  moreover have "lane_content ?l = {#x#} + lane_content ?l'"
    using f by (simp add: lane_content_def)
  ultimately have "sum_list (map lane_content ((lanes s)[i := ?l'])) + {#x#}
      = sum_list (map lane_content (lanes s))"
    by (simp add: ac_simps)
  with d(7) show "mset (received ?s') + sum_list (map lane_content (lanes ?s')) = every"
    by (auto simp: set_lane_def ac_simps)
  show "buf (out ?s') = []" using d(3) by (simp add: set_lane_def)
  show "closer_done ?s' = is_closed (out ?s')" using d(4) by (simp add: set_lane_def)
  show "closer_done ?s' \<longrightarrow> wg_count ?s' = 0" using d(5) by (simp add: set_lane_def)
  show "reader_done ?s' \<longrightarrow> closer_done ?s'" using d(6) by (simp add: set_lane_def)
qed

lemma merge_step_inv:
  assumes inv: "merge_inv every s" and st: "merge_step a s = Returns () s'"
  shows "merge_inv every s'"
proof (cases a)
  note d = merge_invD[OF inv]
  case (Produce i)
  with st have "merge_step (Produce i) s = Returns () s'" by simp
  then obtain x xs where i: "i < length (lanes s)" and t: "todo (lanes s ! i) = x # xs"
    and c: "\<not> is_closed (inp (lanes s ! i))"
    and s': "s' = set_lane s i ((lanes s ! i)\<lparr>todo := xs,
            inp := (inp (lanes s ! i))\<lparr>buf := buf (inp (lanes s ! i)) @ [x]\<rparr>\<rparr>)"
    by (rule Produce_elim)
  have okl: "lane_ok (lanes s ! i)" using list_all_nth[OF d(1) i] .
  show ?thesis unfolding s'
  proof (rule lane_update_inv[OF inv i])
    show "lane_ok ((lanes s ! i)\<lparr>todo := xs,
            inp := (inp (lanes s ! i))\<lparr>buf := buf (inp (lanes s ! i)) @ [x]\<rparr>\<rparr>)"
      using okl c by (simp add: lane_ok_def)
    show "active ((lanes s ! i)\<lparr>todo := xs,
            inp := (inp (lanes s ! i))\<lparr>buf := buf (inp (lanes s ! i)) @ [x]\<rparr>\<rparr>) = active (lanes s ! i)"
      by (simp add: active_def)
    show "lane_content ((lanes s ! i)\<lparr>todo := xs,
            inp := (inp (lanes s ! i))\<lparr>buf := buf (inp (lanes s ! i)) @ [x]\<rparr>\<rparr>) = lane_content (lanes s ! i)"
      using t by (simp add: lane_content_def)
  qed
next
  note d = merge_invD[OF inv]
  case (Handoff i)
  with st have "merge_step (Handoff i) s = Returns () s'" by simp
  then obtain x xs where i: "i < length (lanes s)" and t: "todo (lanes s ! i) = x # xs"
    and c: "\<not> is_closed (inp (lanes s ! i))" and b: "buf (inp (lanes s ! i)) = []"
    and r: "fwd (lanes s ! i) = Ranging"
    and s': "s' = set_lane s i ((lanes s ! i)\<lparr>todo := xs, fwd := Sending x\<rparr>)"
    by (rule Handoff_elim)
  have okl: "lane_ok (lanes s ! i)" using list_all_nth[OF d(1) i] .
  show ?thesis unfolding s'
  proof (rule lane_update_inv[OF inv i])
    show "lane_ok ((lanes s ! i)\<lparr>todo := xs, fwd := Sending x\<rparr>)"
      using okl c by (simp add: lane_ok_def)
    show "active ((lanes s ! i)\<lparr>todo := xs, fwd := Sending x\<rparr>) = active (lanes s ! i)"
      using r by (simp add: active_def)
    show "lane_content ((lanes s ! i)\<lparr>todo := xs, fwd := Sending x\<rparr>) = lane_content (lanes s ! i)"
      using t b r by (simp add: lane_content_def)
  qed
next
  note d = merge_invD[OF inv]
  case (InClose i)
  with st have "merge_step (InClose i) s = Returns () s'" by simp
  from InClose_elim[OF this] have i: "i < length (lanes s)" and t: "todo (lanes s ! i) = []"
    and c: "\<not> is_closed (inp (lanes s ! i))"
    and s': "s' = set_lane s i ((lanes s ! i)\<lparr>inp := (inp (lanes s ! i))\<lparr>is_closed := True\<rparr>\<rparr>)"
    by simp_all
  have okl: "lane_ok (lanes s ! i)" using list_all_nth[OF d(1) i] .
  show ?thesis unfolding s'
  proof (rule lane_update_inv[OF inv i])
    show "lane_ok ((lanes s ! i)\<lparr>inp := (inp (lanes s ! i))\<lparr>is_closed := True\<rparr>\<rparr>)"
      using okl c t by (simp add: lane_ok_def)
    show "active ((lanes s ! i)\<lparr>inp := (inp (lanes s ! i))\<lparr>is_closed := True\<rparr>\<rparr>) = active (lanes s ! i)"
      by (simp add: active_def)
    show "lane_content ((lanes s ! i)\<lparr>inp := (inp (lanes s ! i))\<lparr>is_closed := True\<rparr>\<rparr>)
        = lane_content (lanes s ! i)"
      by (simp add: lane_content_def)
  qed
next
  note d = merge_invD[OF inv]
  case (FwdRecv i)
  with st have "merge_step (FwdRecv i) s = Returns () s'" by simp
  then show ?thesis
  proof (cases rule: FwdRecv_elim)
    case (some x rest)
    have okl: "lane_ok (lanes s ! i)" using list_all_nth[OF d(1) some(1)] .
    show ?thesis unfolding some(4)
    proof (rule lane_update_inv[OF inv some(1)])
      show "lane_ok ((lanes s ! i)\<lparr>inp := (inp (lanes s ! i))\<lparr>buf := rest\<rparr>, fwd := Sending x\<rparr>)"
        using okl by (simp add: lane_ok_def)
      show "active ((lanes s ! i)\<lparr>inp := (inp (lanes s ! i))\<lparr>buf := rest\<rparr>, fwd := Sending x\<rparr>)
          = active (lanes s ! i)"
        using some(2) by (simp add: active_def)
      show "lane_content ((lanes s ! i)\<lparr>inp := (inp (lanes s ! i))\<lparr>buf := rest\<rparr>, fwd := Sending x\<rparr>)
          = lane_content (lanes s ! i)"
        using some(2,3) by (simp add: lane_content_def)
    qed
  next
    case none
    show ?thesis unfolding none(6)
      by (rule recv_none_inv[OF inv none(1-5)])
  qed
next
  case (FwdSend i)
  with st have "merge_step (FwdSend i) s = Returns () s'" by simp
  then obtain x where i: "i < length (lanes s)" and f: "fwd (lanes s ! i) = Sending x"
    and s': "s' = (set_lane s i ((lanes s ! i)\<lparr>fwd := Ranging\<rparr>))\<lparr>received := received s @ [x]\<rparr>"
    by (rule FwdSend_elim)
  show ?thesis unfolding s' by (rule send_inv[OF inv i f])
next
  note d = merge_invD[OF inv]
  case WaitClose
  with st have "merge_step WaitClose s = Returns () s'" by simp
  from WaitClose_elim[OF this] have e: "\<not> closer_done s" "wg_count s = 0"
    "s' = s\<lparr>out := (out s)\<lparr>is_closed := True\<rparr>, closer_done := True\<rparr>"
    by simp_all
  show ?thesis unfolding e(3)
    by (rule merge_invI) (use d e(1,2) in simp_all)
next
  note d = merge_invD[OF inv]
  case ReaderEnd
  with st have "merge_step ReaderEnd s = Returns () s'" by simp
  from ReaderEnd_elim[OF this] have e: "\<not> reader_done s" "is_closed (out s)"
    "s' = s\<lparr>reader_done := True\<rparr>"
    by simp_all
  show ?thesis unfolding e(3)
    by (rule merge_invI) (use d e(1,2) in simp_all)
qed

lemma lane_update_left:
  assumes i: "i < length (lanes s)" and less: "lane_left l' < lane_left (lanes s ! i)"
    and l: "lanes s' = (lanes s)[i := l']"
    and c: "closer_done s' = closer_done s" and r: "reader_done s' = reader_done s"
  shows "merge_left s' < merge_left s"
proof -
  have "sum_list (map lane_left ((lanes s)[i := l'])) + lane_left (lanes s ! i)
      = sum_list (map lane_left (lanes s)) + lane_left l'"
    by (rule sum_list_map_update[OF i])
  with less have "sum_list (map lane_left ((lanes s)[i := l'])) < sum_list (map lane_left (lanes s))"
    by arith
  then show ?thesis by (simp add: merge_left_def l c r)
qed

lemma merge_step_left:
  assumes st: "merge_step a s = Returns () s'"
  shows "merge_left s' < merge_left s"
proof (cases a)
  case (Produce i)
  with st have "merge_step (Produce i) s = Returns () s'" by simp
  then obtain x xs where i: "i < length (lanes s)" and t: "todo (lanes s ! i) = x # xs"
    and c: "\<not> is_closed (inp (lanes s ! i))"
    and s': "s' = set_lane s i ((lanes s ! i)\<lparr>todo := xs,
            inp := (inp (lanes s ! i))\<lparr>buf := buf (inp (lanes s ! i)) @ [x]\<rparr>\<rparr>)"
    by (rule Produce_elim)
  show ?thesis
    by (rule lane_update_left[OF i, where l' = "(lanes s ! i)\<lparr>todo := xs,
            inp := (inp (lanes s ! i))\<lparr>buf := buf (inp (lanes s ! i)) @ [x]\<rparr>\<rparr>"])
       (simp_all add: s' set_lane_def lane_left_def t)
next
  case (Handoff i)
  with st have "merge_step (Handoff i) s = Returns () s'" by simp
  then obtain x xs where i: "i < length (lanes s)" and t: "todo (lanes s ! i) = x # xs"
    and r: "fwd (lanes s ! i) = Ranging"
    and s': "s' = set_lane s i ((lanes s ! i)\<lparr>todo := xs, fwd := Sending x\<rparr>)"
    by (rule Handoff_elim)
  show ?thesis
    by (rule lane_update_left[OF i, where l' = "(lanes s ! i)\<lparr>todo := xs, fwd := Sending x\<rparr>"])
       (simp_all add: s' set_lane_def lane_left_def t r)
next
  case (InClose i)
  with st have "merge_step (InClose i) s = Returns () s'" by simp
  from InClose_elim[OF this] have i: "i < length (lanes s)"
    and c: "\<not> is_closed (inp (lanes s ! i))"
    and s': "s' = set_lane s i ((lanes s ! i)\<lparr>inp := (inp (lanes s ! i))\<lparr>is_closed := True\<rparr>\<rparr>)"
    by simp_all
  show ?thesis
    by (rule lane_update_left[OF i,
          where l' = "(lanes s ! i)\<lparr>inp := (inp (lanes s ! i))\<lparr>is_closed := True\<rparr>\<rparr>"])
       (simp_all add: s' set_lane_def lane_left_def c)
next
  case (FwdRecv i)
  with st have "merge_step (FwdRecv i) s = Returns () s'" by simp
  then show ?thesis
  proof (cases rule: FwdRecv_elim)
    case (some x rest)
    show ?thesis
      by (rule lane_update_left[OF some(1),
            where l' = "(lanes s ! i)\<lparr>inp := (inp (lanes s ! i))\<lparr>buf := rest\<rparr>, fwd := Sending x\<rparr>"])
         (simp_all add: some(2,3,4) set_lane_def lane_left_def)
  next
    case none
    show ?thesis
      by (rule lane_update_left[OF none(1), where l' = "(lanes s ! i)\<lparr>fwd := Finished\<rparr>"])
         (simp_all add: none(2,6) set_lane_def lane_left_def)
  qed
next
  case (FwdSend i)
  with st have "merge_step (FwdSend i) s = Returns () s'" by simp
  then obtain x where i: "i < length (lanes s)" and f: "fwd (lanes s ! i) = Sending x"
    and s': "s' = (set_lane s i ((lanes s ! i)\<lparr>fwd := Ranging\<rparr>))\<lparr>received := received s @ [x]\<rparr>"
    by (rule FwdSend_elim)
  show ?thesis
    by (rule lane_update_left[OF i, where l' = "(lanes s ! i)\<lparr>fwd := Ranging\<rparr>"])
       (simp_all add: s' set_lane_def lane_left_def f)
next
  case WaitClose
  with st have "merge_step WaitClose s = Returns () s'" by simp
  from WaitClose_elim[OF this] have e: "\<not> closer_done s"
    "s' = s\<lparr>out := (out s)\<lparr>is_closed := True\<rparr>, closer_done := True\<rparr>"
    by simp_all
  then show ?thesis by (simp add: merge_left_def)
next
  case ReaderEnd
  with st have "merge_step ReaderEnd s = Returns () s'" by simp
  from ReaderEnd_elim[OF this] have e: "\<not> reader_done s" "s' = s\<lparr>reader_done := True\<rparr>"
    by simp_all
  then show ?thesis by (simp add: merge_left_def)
qed

lemma closed_all_finished:
  assumes inv: "merge_inv every s" and c: "is_closed (out s)"
  shows "\<forall>l \<in> set (lanes s). fwd l = Finished"
proof -
  note d = merge_invD[OF inv]
  from d(4,5) c have "wg_count s = 0" by simp
  with d(2) have "sum_list (map active (lanes s)) = 0" by simp
  then show ?thesis by (simp only: all_finished_sum)
qed

lemma merge_step_safe:
  assumes inv: "merge_inv every s"
  shows "\<not> panicked (merge_step a s)"
proof (cases a)
  note d = merge_invD[OF inv]
  case (Produce i)
  show ?thesis
  proof (cases "i < length (lanes s)")
    case True
    from list_all_nth[OF d(1) True] have "is_closed (inp (lanes s ! i)) \<longrightarrow> todo (lanes s ! i) = []"
      by (simp add: lane_ok_def)
    with Produce True show ?thesis
      by (cases "todo (lanes s ! i)") (simp_all add: Let_def chan_send_def)
  next
    case False
    with Produce show ?thesis by simp
  qed
next
  note d = merge_invD[OF inv]
  case (Handoff i)
  show ?thesis
  proof (cases "i < length (lanes s)")
    case True
    from list_all_nth[OF d(1) True] have "is_closed (inp (lanes s ! i)) \<longrightarrow> todo (lanes s ! i) = []"
      by (simp add: lane_ok_def)
    with Handoff True show ?thesis
      by (cases "todo (lanes s ! i)") (simp_all add: Let_def)
  next
    case False
    with Handoff show ?thesis by simp
  qed
next
  case (InClose i)
  then show ?thesis by (simp add: Let_def chan_close_def)
next
  note d = merge_invD[OF inv]
  case (FwdRecv i)
  show ?thesis
  proof (cases "i < length (lanes s) \<and> fwd (lanes s ! i) = Ranging")
    case True
    then have "active (lanes s ! i) = 1" by (simp add: active_def)
    with active_le_sum[of i "lanes s"] True d(2) have "0 < wg_count s" by simp
    with FwdRecv True show ?thesis
      by (cases "buf (inp (lanes s ! i))") (simp_all add: Let_def chan_recv_def)
  next
    case False
    with FwdRecv show ?thesis by (auto simp: Let_def)
  qed
next
  case (FwdSend i)
  show ?thesis
  proof (cases "i < length (lanes s) \<and> is_closed (out s)")
    case True
    with closed_all_finished[OF inv] have "fwd (lanes s ! i) = Finished" by simp
    with FwdSend True show ?thesis by (simp add: Let_def)
  next
    case False
    with FwdSend show ?thesis
      by (cases "fwd (lanes s ! i)") (auto simp: Let_def)
  qed
next
  note d = merge_invD[OF inv]
  case WaitClose
  with d(4) show ?thesis by (simp add: chan_close_def)
next
  case ReaderEnd
  then show ?thesis
    by (cases "buf (out s)") (simp_all add: chan_recv_def)
qed

lemma merge_progress:
  assumes inv: "merge_inv every s" and nd: "\<not> reader_done s"
  shows "\<exists>a. returned (merge_step a s)"
proof -
  note d = merge_invD[OF inv]
  consider (sending) i x where "i < length (lanes s)" "fwd (lanes s ! i) = Sending x"
    | (ranging) i where "i < length (lanes s)" "fwd (lanes s ! i) = Ranging"
    | (finished) "\<forall>l \<in> set (lanes s). fwd l = Finished"
  proof -
    have "(\<forall>l \<in> set (lanes s). fwd l = Finished) \<or> (\<exists>i < length (lanes s). fwd (lanes s ! i) \<noteq> Finished)"
      by (auto simp: all_set_conv_all_nth)
    then show ?thesis
    proof
      assume "\<forall>l \<in> set (lanes s). fwd l = Finished"
      then show ?thesis by (rule finished)
    next
      assume "\<exists>i < length (lanes s). fwd (lanes s ! i) \<noteq> Finished"
      then obtain i where i: "i < length (lanes s)" "fwd (lanes s ! i) \<noteq> Finished" by blast
      then show ?thesis
        by (cases "fwd (lanes s ! i)") (auto intro: sending ranging)
    qed
  qed
  then show ?thesis
  proof cases
    case sending
    have "\<not> is_closed (out s)"
    proof
      assume "is_closed (out s)"
      with closed_all_finished[OF inv] sending show False by simp
    qed
    with sending nd have "returned (merge_step (FwdSend i) s)" by (simp add: Let_def)
    then show ?thesis ..
  next
    case ranging
    from list_all_nth[OF d(1) ranging(1)]
    have ok: "is_closed (inp (lanes s ! i)) \<longrightarrow> todo (lanes s ! i) = []"
      by (simp add: lane_ok_def)
    have w: "0 < wg_count s"
    proof -
      from ranging have "active (lanes s ! i) = 1" by (simp add: active_def)
      with active_le_sum[of i "lanes s"] ranging d(2) show ?thesis by simp
    qed
    show ?thesis
    proof (cases "buf (inp (lanes s ! i))")
      case (Cons x rest)
      with ranging have "returned (merge_step (FwdRecv i) s)"
        by (simp add: Let_def chan_recv_def)
      then show ?thesis ..
    next
      case Nil
      show ?thesis
      proof (cases "todo (lanes s ! i)")
        case (Cons x xs)
        with ok have "\<not> is_closed (inp (lanes s ! i))" by auto
        with Cons Nil ranging have "returned (merge_step (Handoff i) s)"
          by (simp add: Let_def)
        then show ?thesis ..
      next
        case tn: Nil
        show ?thesis
        proof (cases "is_closed (inp (lanes s ! i))")
          case True
          with Nil ranging w have "returned (merge_step (FwdRecv i) s)"
            by (simp add: Let_def chan_recv_def)
          then show ?thesis ..
        next
          case False
          with tn ranging have "returned (merge_step (InClose i) s)"
            by (simp add: Let_def chan_close_def)
          then show ?thesis ..
        qed
      qed
    qed
  next
    case finished
    then have "sum_list (map active (lanes s)) = 0" by (simp only: all_finished_sum)
    with d(2) have w: "wg_count s = 0" by simp
    show ?thesis
    proof (cases "closer_done s")
      case True
      with d(3,4) nd have "returned (merge_step ReaderEnd s)"
        by (simp add: chan_recv_def)
      then show ?thesis ..
    next
      case False
      with d(4) w have "returned (merge_step WaitClose s)"
        by (simp add: chan_close_def)
      then show ?thesis ..
    qed
  qed
qed

lemma start_lanes_ok:
  "streams_ok ins \<Longrightarrow> list_all lane_ok (map (\<lambda>(xs, c). \<lparr>todo = xs, inp = c, fwd = Ranging\<rparr>) ins)"
  by (induction ins) (auto simp: streams_ok_def lane_ok_def)

lemma start_active:
  "sum_list (map active (map (\<lambda>(xs, c). \<lparr>todo = xs, inp = c, fwd = Ranging\<rparr>) ins)) = length ins"
  by (induction ins) (auto simp: active_def)

lemma start_content:
  "sum_list (map lane_content (map (\<lambda>(xs, c). \<lparr>todo = xs, inp = c, fwd = Ranging\<rparr>) ins)) = carried ins"
  by (induction ins) (auto simp: lane_content_def carried_def)

lemma size_carried:
  "size (carried ins) = sum_list (map (\<lambda>(xs, c). length (buf c) + length xs) ins)"
  by (induction ins) (auto simp: carried_def)

lemma sum_list_all_empty:
  "\<forall>x \<in> set xs. f x = {#} \<Longrightarrow> sum_list (map f xs) = {#}"
  by (induction xs) simp_all

lemma merge_start_inv:
  assumes "streams_ok ins"
  shows "merge_inv (carried ins) (merge_start ins)"
proof (rule merge_invI)
  show "list_all lane_ok (lanes (merge_start ins))"
    using start_lanes_ok[OF assms] by (simp add: merge_start_def)
  show "wg_count (merge_start ins) = int (sum_list (map active (lanes (merge_start ins))))"
    using start_active[of ins] by (simp add: merge_start_def)
  show "mset (received (merge_start ins)) + sum_list (map lane_content (lanes (merge_start ins)))
      = carried ins"
    using start_content[of ins] by (simp add: merge_start_def)
qed (simp_all add: merge_start_def make_chan_def)

lemma merge_run_inv:
  assumes "streams_ok ins"
  shows "merge_run sched (merge_start ins) = Returns () s \<Longrightarrow>
     merge_inv (carried ins) s \<and> merge_left s + length sched \<le> merge_left (merge_start ins)"
proof (induction sched arbitrary: s rule: rev_induct)
  case Nil
  then show ?case using merge_start_inv[OF assms] by simp
next
  case (snoc a as)
  from snoc.prems obtain s1 where r: "merge_run as (merge_start ins) = Returns () s1"
    and st: "merge_step a s1 = Returns () s"
    by (auto simp: merge_run_snoc)
  from snoc.IH[OF r] have inv: "merge_inv (carried ins) s1"
    and le: "merge_left s1 + length as \<le> merge_left (merge_start ins)"
    by simp_all
  from merge_step_inv[OF inv st] merge_step_left[OF st] le show ?case
    by simp
qed

lemma merge_run_safe:
  "merge_inv every s \<Longrightarrow> \<not> panicked (merge_run sched s)"
proof (induction sched arbitrary: s)
  case Nil
  then show ?case by simp
next
  case (Cons a as)
  show ?case
  proof (cases "merge_step a s")
    case (Returns u s1)
    with Cons.IH[OF merge_step_inv[OF Cons.prems]] show ?thesis by simp
  next
    case Blocks
    then show ?thesis by simp
  next
    case (Panics s1)
    with merge_step_safe[OF Cons.prems, of a] show ?thesis by simp
  qed
qed

text \<open>
  C5: let K input streams carry their values (buffered or still to be sent), each closed by
  its producer after its last value.  In every state a schedule of \<open>merge\<close> reaches, the
  values the reader has received and the values still on their way are together exactly the
  values carried; \<open>out\<close> is closed only when every input is closed, and then the reader
  has received every carried value exactly once, N1 + ... + NK values in all.  No schedule
  panics, every schedule is finite, and a step is possible until the reader has seen
  \<open>out\<close> closed: once the inputs are closed and drained, \<open>out\<close> is closed.
\<close>

theorem merge_complete:
  assumes "streams_ok ins" and "merge_run sched (merge_start ins) = Returns () s"
  shows "mset (received s) + sum_list (map lane_content (lanes s)) = carried ins
       \<and> (is_closed (out s) \<longrightarrow>
            (\<forall>l \<in> set (lanes s). is_closed (inp l))
            \<and> mset (received s) = carried ins
            \<and> length (received s) = sum_list (map (\<lambda>(xs, c). length (buf c) + length xs) ins))
       \<and> (reader_done s \<longrightarrow> is_closed (out s))
       \<and> (\<not> reader_done s \<longrightarrow> (\<exists>a. returned (merge_step a s)))
       \<and> length sched \<le> merge_left (merge_start ins)
       \<and> \<not> panicked (merge_run later s)"
proof -
  from merge_run_inv[OF assms] have inv: "merge_inv (carried ins) s"
    and le: "merge_left s + length sched \<le> merge_left (merge_start ins)"
    by simp_all
  note d = merge_invD[OF inv]
  have 1: "mset (received s) + sum_list (map lane_content (lanes s)) = carried ins"
    using d(7) .
  have 2: "is_closed (out s) \<longrightarrow>
            (\<forall>l \<in> set (lanes s). is_closed (inp l))
            \<and> mset (received s) = carried ins
            \<and> length (received s) = sum_list (map (\<lambda>(xs, c). length (buf c) + length xs) ins)"
  proof
    assume c: "is_closed (out s)"
    from closed_all_finished[OF inv c] have fin: "\<forall>l \<in> set (lanes s). fwd l = Finished" .
    have ok: "\<forall>l \<in> set (lanes s). lane_ok l" using d(1) by (simp add: list_all_iff)
    have a: "\<forall>l \<in> set (lanes s). is_closed (inp l)"
      using fin ok by (simp add: lane_ok_def)
    have "\<forall>l \<in> set (lanes s). lane_content l = {#}"
      using fin ok by (simp add: lane_ok_def lane_content_def)
    then have "sum_list (map lane_content (lanes s)) = {#}"
      by (rule sum_list_all_empty)
    with d(7) have b: "mset (received s) = carried ins" by simp
    then have "size (mset (received s)) = size (carried ins)" by simp
    then have "length (received s) = sum_list (map (\<lambda>(xs, c). length (buf c) + length xs) ins)"
      by (simp add: size_carried)
    with a b show "(\<forall>l \<in> set (lanes s). is_closed (inp l))
            \<and> mset (received s) = carried ins
            \<and> length (received s) = sum_list (map (\<lambda>(xs, c). length (buf c) + length xs) ins)"
      by blast
  qed
  have 3: "reader_done s \<longrightarrow> is_closed (out s)"
    using d(4,6) by simp
  have 4: "\<not> reader_done s \<longrightarrow> (\<exists>a. returned (merge_step a s))"
    using merge_progress[OF inv] by blast
  have 5: "length sched \<le> merge_left (merge_start ins)"
    using le by simp
  have 6: "\<not> panicked (merge_run later s)"
    using merge_run_safe[OF inv] .
  show ?thesis by (intro conjI 1 2 3 4 5 6)
qed

theorem merge_complete_witness:
  "streams_ok [([1, 2 :: nat], make_chan 0), ([3], make_chan 1)]
   \<and> merge_run [Handoff 0, FwdSend 0, Produce 1, FwdRecv 1, FwdSend 1, Handoff 0, InClose 1,
         FwdRecv 1, FwdSend 0, InClose 0, FwdRecv 0, WaitClose, ReaderEnd]
        (merge_start [([1, 2 :: nat], make_chan 0), ([3], make_chan 1)])
     = Returns ()
        \<lparr>lanes = [\<lparr>todo = [], inp = \<lparr>buf = [], cap = 0, is_closed = True\<rparr>, fwd = Finished\<rparr>,
                  \<lparr>todo = [], inp = \<lparr>buf = [], cap = 1, is_closed = True\<rparr>, fwd = Finished\<rparr>],
         wg_count = 0, out = \<lparr>buf = [], cap = 0, is_closed = True\<rparr>,
         closer_done = True, received = [1, 3, 2], reader_done = True\<rparr>
   \<and> mset [1, 3, 2 :: nat] = carried [([1, 2], make_chan 0), ([3], make_chan 1)]
   \<and> length [1, 3, 2 :: nat] = (0 + 2) + (0 + 1)"
proof -
  let ?ins = "[([1, 2 :: nat], make_chan 0), ([3], make_chan 1)]"
  let ?sched = "[Handoff 0, FwdSend 0, Produce 1, FwdRecv 1, FwdSend 1, Handoff 0, InClose 1,
         FwdRecv 1, FwdSend 0, InClose 0, FwdRecv 0, WaitClose, ReaderEnd]"
  let ?fin = "\<lparr>lanes = [\<lparr>todo = [], inp = \<lparr>buf = [], cap = 0, is_closed = True\<rparr>, fwd = Finished\<rparr>,
                  \<lparr>todo = [], inp = \<lparr>buf = [], cap = 1, is_closed = True\<rparr>, fwd = Finished\<rparr>],
         wg_count = 0, out = \<lparr>buf = [], cap = 0, is_closed = True\<rparr>,
         closer_done = True, received = [1, 3, 2 :: nat], reader_done = True\<rparr>"
  have ok: "streams_ok ?ins"
    by (simp add: streams_ok_def make_chan_def)
  have r: "merge_run ?sched (merge_start ?ins) = Returns () ?fin"
    by (simp add: merge_start_def make_chan_def set_lane_def Let_def chan_send_def
        chan_recv_def chan_close_def)
  from merge_complete[OF ok r, of "[]"] ok r show ?thesis
    by (simp add: make_chan_def)
qed

end
